theory Spec2Isabelle
  imports Main "HOL-Library.Word" "HOL-Library.Monad_Syntax" "HOL-Library.Multiset"
    "HOL-Library.AList"
begin

unbundle bit_operations_syntax

section \<open>Data model of main.go\<close>

text \<open>
  Bytes are 8-bit words and Go's \<^verbatim>\<open>uint64\<close> is a 64-bit word. Go's \<^verbatim>\<open>int\<close> is taken to
  be 64 bits wide (as on amd64 and arm64); where the source adds or shifts an \<^verbatim>\<open>int\<close>
  the two's-complement wrap-around is written out with \<open>int64\<close>. A Go \<^verbatim>\<open>string\<close> is a
  sequence of bytes; text that the program prints is an Isabelle \<open>string\<close>.
\<close>

type_synonym byte = "8 word"
type_synonym uint64 = "64 word"

text \<open>
  \<^verbatim>\<open>Field\<close> is a struct of four pointers, each of which may be nil.
  \<^verbatim>\<open>Message = map[uint64][]Field\<close> is a type alias; the map is an association list
  with at most one entry per key. The position of an entry in the list has no meaning
  for the program: Go visits a map in an unspecified order (see \<open>Render\<close>).
\<close>

datatype Field = Field (numeric: "uint64 option") (string: "byte list option")
  (message: "(uint64 \<times> Field list) list option") (bytes: "byte list option")

type_synonym Message = "(uint64 \<times> Field list) list"

datatype Tag = Tag (fieldID: uint64) (typ': uint64)

definition Varint :: uint64 where "Varint = 0"
definition B64 :: uint64 where "B64 = 1"
definition LengthDelim :: uint64 where "LengthDelim = 2"
definition B32 :: uint64 where "B32 = 5"

text \<open>
  The \<^verbatim>\<open>error\<close> values the program returns, with the numbers their messages print, and
  the two ways a call can fail: by returning an error, or by a run-time panic
  (a slice expression out of range), which no \<^verbatim>\<open>err != nil\<close> test catches.
\<close>

datatype error =
    MissingFrameSize nat
  | IncompleteFrame int nat
  | NotEnoughBytes uint64 int
  | InvalidFieldType uint64
  | ErrUnexpectedEOF

datatype failure = Error error | Panic

definition int64 :: "int \<Rightarrow> int" where
  "int64 i = signed_take_bit 63 i"

section \<open>Library functions the program calls\<close>

text \<open>
  \<^verbatim>\<open>proto.DecodeVarint\<close> of github.com/golang/protobuf: at most ten bytes, seven bits
  each, least significant group first; it has no error result and returns \<open>(0, 0)\<close>
  when the buffer ends inside the varint or the varint does not end within ten bytes.
  The loop below is the one of the releases up to 1.3; later releases also return
  \<open>(0, 0)\<close> for a tenth byte above 1, where this loop drops the bits that do not fit.
  Nothing proved here rests on a tenth byte above 1.
\<close>

function DecodeVarint_loop :: "byte list \<Rightarrow> nat \<Rightarrow> uint64 \<Rightarrow> nat \<Rightarrow> uint64 \<times> nat" where
  "DecodeVarint_loop buf shift x n =
     (if shift < 64 then
        (if n \<ge> length buf then (0, 0)
         else
           let b = (ucast (buf ! n) :: uint64);
               n = n + 1;
               x = x OR push_bit shift (b AND 0x7F)
           in if b AND 0x80 = 0 then (x, n)
              else DecodeVarint_loop buf (shift + 7) x n)
      else (0, 0))"
  by pat_completeness auto
termination
  by (relation "measure (\<lambda>(buf, shift, x, n). 64 - shift)") auto

definition DecodeVarint :: "byte list \<Rightarrow> uint64 \<times> nat" where
  "DecodeVarint buf = DecodeVarint_loop buf 0 0 0"

text \<open>
  \<^verbatim>\<open>proto.NewBuffer(b).DecodeFixed32()\<close> and \<^verbatim>\<open>DecodeFixed64()\<close>: little-endian, with
  \<^verbatim>\<open>io.ErrUnexpectedEOF\<close> when fewer than 4 (8) bytes are left.
\<close>

definition DecodeFixed32 :: "byte list \<Rightarrow> failure + uint64" where
  "DecodeFixed32 buf =
     (if 4 > length buf then Inl (Error ErrUnexpectedEOF)
      else Inr (ucast (buf ! 0) OR push_bit 8 (ucast (buf ! 1))
             OR push_bit 16 (ucast (buf ! 2)) OR push_bit 24 (ucast (buf ! 3))))"

definition DecodeFixed64 :: "byte list \<Rightarrow> failure + uint64" where
  "DecodeFixed64 buf =
     (if 8 > length buf then Inl (Error ErrUnexpectedEOF)
      else Inr (ucast (buf ! 0) OR push_bit 8 (ucast (buf ! 1))
             OR push_bit 16 (ucast (buf ! 2)) OR push_bit 24 (ucast (buf ! 3))
             OR push_bit 32 (ucast (buf ! 4)) OR push_bit 40 (ucast (buf ! 5))
             OR push_bit 48 (ucast (buf ! 6)) OR push_bit 56 (ucast (buf ! 7))))"

text \<open>
  \<^verbatim>\<open>utf8.Valid\<close>: every character is a well-formed UTF-8 sequence of one to four bytes;
  overlong forms, surrogates and values above U+10FFFF are rejected through the range
  allowed for the second byte.
\<close>

definition continuation :: "byte \<Rightarrow> bool" where
  "continuation c = (0x80 \<le> c \<and> c \<le> 0xBF)"

definition accept_lo :: "byte \<Rightarrow> byte" where
  "accept_lo p = (if p = 0xE0 then 0xA0 else if p = 0xF0 then 0x90 else 0x80)"

definition accept_hi :: "byte \<Rightarrow> byte" where
  "accept_hi p = (if p = 0xED then 0x9F else if p = 0xF4 then 0x8F else 0xBF)"

fun utf8_Valid :: "byte list \<Rightarrow> bool" where
  "utf8_Valid [] = True"
| "utf8_Valid (p # ps) =
     (if p < 0x80 then utf8_Valid ps
      else if 0xC2 \<le> p \<and> p \<le> 0xDF then
        (case ps of
           c1 # r \<Rightarrow> accept_lo p \<le> c1 \<and> c1 \<le> accept_hi p \<and> utf8_Valid r
         | _ \<Rightarrow> False)
      else if 0xE0 \<le> p \<and> p \<le> 0xEF then
        (case ps of
           c1 # c2 # r \<Rightarrow>
             accept_lo p \<le> c1 \<and> c1 \<le> accept_hi p \<and> continuation c2 \<and> utf8_Valid r
         | _ \<Rightarrow> False)
      else if 0xF0 \<le> p \<and> p \<le> 0xF4 then
        (case ps of
           c1 # c2 # c3 # r \<Rightarrow>
             accept_lo p \<le> c1 \<and> c1 \<le> accept_hi p \<and> continuation c2 \<and> continuation c3
               \<and> utf8_Valid r
         | _ \<Rightarrow> False)
      else False)"

text \<open>
  \<^verbatim>\<open>strings.Join\<close> and the verbs of \<^verbatim>\<open>fmt.Sprintf\<close> the program uses: \<^verbatim>\<open>%d\<close> of an
  unsigned integer, \<^verbatim>\<open>%s\<close> of a string (its bytes, unchanged) and \<^verbatim>\<open>%x\<close> of a byte
  slice (two lowercase hexadecimal digits per byte).
\<close>

fun Join :: "string list \<Rightarrow> string \<Rightarrow> string" where
  "Join [] sep = []"
| "Join [s] sep = s"
| "Join (s # ss) sep = s @ sep @ Join ss sep"

definition digit :: "nat \<Rightarrow> char" where
  "digit d = ''0123456789abcdef'' ! d"

fun format_d :: "nat \<Rightarrow> string" where
  "format_d n = (if n < 10 then [digit n] else format_d (n div 10) @ [digit (n mod 10)])"

definition format_s :: "byte list \<Rightarrow> string" where
  "format_s bs = map (\<lambda>b. char_of (unat b)) bs"

definition format_x :: "byte list \<Rightarrow> string" where
  "format_x bs = concat (map (\<lambda>b. [digit (unat b div 16), digit (unat b mod 16)]) bs)"

section \<open>The functions of main.go\<close>

text \<open>
  \<^verbatim>\<open>addField\<close>: \<^verbatim>\<open>m[id] = append(fields, field)\<close> when the key is present,
  \<^verbatim>\<open>m[id] = []Field{field}\<close> otherwise. \<open>fields_of\<close> is the map read \<^verbatim>\<open>m[id]\<close>,
  which yields the empty slice for an absent key.
\<close>

definition addField :: "Message \<Rightarrow> uint64 \<Rightarrow> Field \<Rightarrow> Message" where
  "addField m fid field =
     (case map_of m fid of
        Some fields \<Rightarrow> AList.update fid (fields @ [field]) m
      | None \<Rightarrow> AList.update fid [field] m)"

definition fields_of :: "Message \<Rightarrow> uint64 \<Rightarrow> Field list" where
  "fields_of m fid = (case map_of m fid of Some fields \<Rightarrow> fields | None \<Rightarrow> [])"

definition ParseTag :: "byte list \<Rightarrow> failure + (Tag \<times> nat)" where
  "ParseTag data =
     (case DecodeVarint data of (x, n) \<Rightarrow>
        let typ = x AND 7; fid = drop_bit 3 x in
        if typ = Varint \<or> typ = B64 \<or> typ = LengthDelim \<or> typ = B32
        then Inr (Tag fid typ, n)
        else Inl (Error (InvalidFieldType typ)))"

text \<open>
  \<^verbatim>\<open>ParseProto\<close>: the loop \<^verbatim>\<open>for pos < len(data)\<close> with its state \<open>pos\<close> and \<open>msg\<close>.
  The loop need not end, so the function is partial: \<open>None\<close> is a run that never
  returns. \<open>Some (Inl (Error e))\<close> is \<^verbatim>\<open>return nil, 0, err\<close>, \<open>Some (Inl Panic)\<close> a
  run-time panic, \<open>Some (Inr (msg, pos))\<close> is \<^verbatim>\<open>return &msg, pos, nil\<close>.

  In the length-delimited case \<open>hi\<close> is \<^verbatim>\<open>pos+int(x)\<close>: the conversion \<^verbatim>\<open>int(x)\<close>
  reads the 64 bits as two's complement (\<open>sint\<close>) and the sum wraps. The slice
  expression \<^verbatim>\<open>data[pos : pos+int(x)]\<close> panics when its upper bound is below its lower
  bound; the upper bound is at most \<^verbatim>\<open>len(data)\<close> by the test before it. A panic of the
  recursive call unwinds through the caller; an error it returns selects the string
  or bytes branch. The \<^verbatim>\<open>switch\<close> has no default: a type that matches no case adds no
  field.
\<close>

partial_function (option) ParseProto_loop ::
  "byte list \<Rightarrow> nat \<Rightarrow> Message \<Rightarrow> (failure + Message \<times> nat) option" where
  "ParseProto_loop data pos msg =
    (if pos < length data then
       (case ParseTag (drop pos data) of
          Inl err \<Rightarrow> Some (Inl err)
        | Inr (tag, n) \<Rightarrow>
           (let pos = pos + n in
            if typ' tag = Varint then
              (case DecodeVarint (drop pos data) of (x, n) \<Rightarrow>
                 ParseProto_loop data (pos + n)
                   (addField msg (fieldID tag) (Field (Some x) None None None)))
            else if typ' tag = B32 then
              (case DecodeFixed32 (drop pos data) of
                 Inl err \<Rightarrow> Some (Inl err)
               | Inr x \<Rightarrow>
                   ParseProto_loop data (pos + 4)
                     (addField msg (fieldID tag) (Field (Some x) None None None)))
            else if typ' tag = B64 then
              (case DecodeFixed64 (drop pos data) of
                 Inl err \<Rightarrow> Some (Inl err)
               | Inr x \<Rightarrow>
                   ParseProto_loop data (pos + 8)
                     (addField msg (fieldID tag) (Field (Some x) None None None)))
            else if typ' tag = LengthDelim then
              (case DecodeVarint (drop pos data) of (x, n) \<Rightarrow>
                 (let pos = pos + n; hi = int64 (int pos + sint x) in
                  if hi > int (length data) then
                    Some (Inl (Error (NotEnoughBytes x (int (length data) - int pos))))
                  else if hi < int pos then Some (Inl Panic)
                  else
                    (let content = take (nat hi - pos) (drop pos data); pos = nat hi in
                     ParseProto_loop content 0 [] \<bind> (\<lambda>r.
                       case r of
                         Inr (subMsg, _) \<Rightarrow>
                           ParseProto_loop data pos
                             (addField msg (fieldID tag) (Field None None (Some subMsg) None))
                       | Inl (Error _) \<Rightarrow>
                           if utf8_Valid content then
                             ParseProto_loop data pos
                               (addField msg (fieldID tag) (Field None (Some content) None None))
                           else
                             ParseProto_loop data pos
                               (addField msg (fieldID tag) (Field None None None (Some content)))
                       | Inl Panic \<Rightarrow> Some (Inl Panic)))))
            else ParseProto_loop data pos msg))
     else Some (Inr (msg, pos)))"

declare ParseProto_loop.simps [code]

definition ParseProto :: "byte list \<Rightarrow> (failure + Message \<times> nat) option" where
  "ParseProto data = ParseProto_loop data 0 []"

text \<open>
  One turn of that loop, taken on its own: \<open>ParseProto_turn data pos\<close> is the body of
  the loop at position \<open>pos\<close> up to the call of \<^verbatim>\<open>addField\<close>. It yields the error or panic
  that ends the run, or the field the turn adds with its number (none when the
  \<^verbatim>\<open>switch\<close> matches no case) and the position of the next turn; it is \<open>None\<close> when the
  recursive decode of a payload does not return. That the loop is the repetition of
  this turn is proved below (\<open>ParseProto_loop_turn\<close>).
\<close>

definition ParseProto_turn ::
  "byte list \<Rightarrow> nat \<Rightarrow> (failure + (uint64 \<times> Field) option \<times> nat) option" where
  "ParseProto_turn data pos =
     (case ParseTag (drop pos data) of
        Inl err \<Rightarrow> Some (Inl err)
      | Inr (tag, n) \<Rightarrow>
         (let pos = pos + n in
          if typ' tag = Varint then
            (case DecodeVarint (drop pos data) of (x, n) \<Rightarrow>
               Some (Inr (Some (fieldID tag, Field (Some x) None None None), pos + n)))
          else if typ' tag = B32 then
            (case DecodeFixed32 (drop pos data) of
               Inl err \<Rightarrow> Some (Inl err)
             | Inr x \<Rightarrow>
                 Some (Inr (Some (fieldID tag, Field (Some x) None None None), pos + 4)))
          else if typ' tag = B64 then
            (case DecodeFixed64 (drop pos data) of
               Inl err \<Rightarrow> Some (Inl err)
             | Inr x \<Rightarrow>
                 Some (Inr (Some (fieldID tag, Field (Some x) None None None), pos + 8)))
          else if typ' tag = LengthDelim then
            (case DecodeVarint (drop pos data) of (x, n) \<Rightarrow>
               (let pos = pos + n; hi = int64 (int pos + sint x) in
                if hi > int (length data) then
                  Some (Inl (Error (NotEnoughBytes x (int (length data) - int pos))))
                else if hi < int pos then Some (Inl Panic)
                else
                  (let content = take (nat hi - pos) (drop pos data); pos = nat hi in
                   ParseProto content \<bind> (\<lambda>r.
                     case r of
                       Inr (subMsg, _) \<Rightarrow>
                         Some (Inr (Some (fieldID tag, Field None None (Some subMsg) None), pos))
                     | Inl (Error _) \<Rightarrow>
                         if utf8_Valid content then
                           Some (Inr (Some (fieldID tag, Field None (Some content) None None),
                             pos))
                         else
                           Some (Inr (Some (fieldID tag, Field None None None (Some content)),
                             pos))
                     | Inl Panic \<Rightarrow> Some (Inl Panic)))))
          else Some (Inr (None, pos))))"

text \<open>
  \<^verbatim>\<open>ParseGrpc\<close>. \<open>ParseGrpc_size\<close> is its loop
  \<^verbatim>\<open>for i := 0; i < 5; i++ { size = size << 8; size += int(data[i]) }\<close>,
  which runs over the bytes 0, 1, 2, 3 and 4.
\<close>

definition ParseGrpc_size :: "byte list \<Rightarrow> int" where
  "ParseGrpc_size data =
     foldl (\<lambda>size i. int64 (int64 (push_bit 8 size) + int (unat (data ! i)))) 0 [0..<5]"

definition ParseGrpc :: "byte list \<Rightarrow> (failure + Message \<times> nat) option" where
  "ParseGrpc data =
     (if length data < 5 then Some (Inl (Error (MissingFrameSize (length data))))
      else
        let size = ParseGrpc_size data; data = drop 5 data in
        if int (length data) < size then
          Some (Inl (Error (IncompleteFrame size (length data))))
        else
          ParseProto (take (nat size) data) \<bind> (\<lambda>r.
            case r of
              Inr (msg, n) \<Rightarrow> Some (Inr (msg, n + 5))
            | Inl err \<Rightarrow> Some (Inl err)))"

text \<open>
  \<^verbatim>\<open>Render\<close> and \<^verbatim>\<open>RenderField\<close>. \<^verbatim>\<open>for id, fields := range *m\<close> visits every entry of
  the map once, in an order Go does not specify: \<open>Render_range\<close> is the loop body
  applied to every entry, and the parameter \<open>ord\<close> arranges the strings the loop
  appends in the order of the visit. \<open>range_permutes ord\<close> says that \<open>ord\<close> is such an
  order: it only permutes. \<open>Render_repeated\<close> is the inner loop over \<^verbatim>\<open>fields\<close>.

  In \<^verbatim>\<open>RenderField\<close> the numeric and string pointers are dereferenced
  (\<^verbatim>\<open>*f.numeric\<close>, \<^verbatim>\<open>*f.string\<close>), while \<^verbatim>\<open>fmt.Sprintf("%x", f.bytes)\<close> is given the
  pointer \<^verbatim>\<open>*[]byte\<close> itself: package fmt prints a pointer to a slice as \<^verbatim>\<open>&\<close> followed by
  the slice under the verb.
\<close>

type_synonym range_order = "string list \<Rightarrow> string list"

definition range_permutes :: "range_order \<Rightarrow> bool" where
  "range_permutes ord = (\<forall>ss. mset (ord ss) = mset ss)"

fun Render :: "range_order \<Rightarrow> Message \<Rightarrow> string"
  and Render_range :: "range_order \<Rightarrow> Message \<Rightarrow> string list"
  and Render_repeated :: "range_order \<Rightarrow> Field list \<Rightarrow> string list"
  and RenderField :: "range_order \<Rightarrow> Field \<Rightarrow> string"
where
  "Render ord m = ''{'' @ Join (ord (Render_range ord m)) '','' @ ''}''"
| "Render_range ord [] = []"
| "Render_range ord ((fid, fields) # m) =
     (case fields of
        [f] \<Rightarrow> [CHR 0x22] @ format_d (unat fid) @ [CHR 0x22] @ '':'' @ RenderField ord f
      | _ \<Rightarrow> [CHR 0x22] @ format_d (unat fid) @ [CHR 0x22] @ '':[''
              @ Join (Render_repeated ord fields) '','' @ '']'')
     # Render_range ord m"
| "Render_repeated ord [] = []"
| "Render_repeated ord (f # fs) = RenderField ord f # Render_repeated ord fs"
| "RenderField ord (Field num str msg byt) =
     (case num of Some x \<Rightarrow> format_d (unat x) | None \<Rightarrow>
      (case str of Some s \<Rightarrow> [CHR 0x22] @ format_s s @ [CHR 0x22] | None \<Rightarrow>
       (case msg of Some m \<Rightarrow> Render ord m | None \<Rightarrow>
        (case byt of Some b \<Rightarrow> ''&'' @ format_x b | None \<Rightarrow> ''''))))"

section \<open>Notions used by the properties\<close>

text \<open>
  The specification's reading of the frame header, in its own words: byte 0 is a flag
  and is ignored, bytes 1 to 4 are a big-endian unsigned 32-bit length.
\<close>

definition frame_length_spec :: "byte list \<Rightarrow> int" where
  "frame_length_spec data =
     int (unat (data ! 1)) * 2 ^ 24 + int (unat (data ! 2)) * 2 ^ 16
       + int (unat (data ! 3)) * 2 ^ 8 + int (unat (data ! 4))"

text \<open>
  \<open>populated f\<close> counts the pointers of \<open>f\<close> that are not nil. \<open>Field_ok f\<close>: exactly
  one is not nil, and the same holds for every field of a nested message, at every
  depth. \<open>Message_ok m\<close>: every field of every entry of \<open>m\<close> is \<open>Field_ok\<close>.
\<close>

definition populated :: "Field \<Rightarrow> nat" where
  "populated f =
     (if numeric f \<noteq> None then 1 else 0) + (if string f \<noteq> None then 1 else 0)
       + (if message f \<noteq> None then 1 else 0) + (if bytes f \<noteq> None then 1 else 0)"

fun Field_ok :: "Field \<Rightarrow> bool" where
  "Field_ok (Field num str msg byt) =
     (populated (Field num str msg byt) = 1 \<and>
      (case msg of
         Some m \<Rightarrow> list_all (\<lambda>(fid, fields). list_all Field_ok fields) m
       | None \<Rightarrow> True))"

definition Message_ok :: "Message \<Rightarrow> bool" where
  "Message_ok m = list_all (\<lambda>(fid, fields). list_all Field_ok fields) m"

section \<open>Evaluation and basic facts\<close>

lemmas wire_defs = Varint_def B64_def LengthDelim_def B32_def

lemmas run_defs = ParseProto_def ParseProto_loop.simps ParseTag_def DecodeVarint_def
  addField_def wire_defs int64_def DecodeFixed32_def DecodeFixed64_def

lemmas fmt_defs = digit_def format_x_def format_s_def char_of_def

lemma range_permutes_single: "range_permutes ord \<Longrightarrow> ord [s] = [s]"
proof -
  assume "range_permutes ord"
  then have "mset (ord [s]) = {#s#}" by (simp add: range_permutes_def)
  then show ?thesis by (simp add: mset_single_iff_right)
qed

lemma range_permutes_nil: "range_permutes ord \<Longrightarrow> ord [] = []"
proof -
  assume "range_permutes ord"
  then have "mset (ord []) = {#}" by (simp add: range_permutes_def)
  then show ?thesis by simp
qed

lemma range_permutes_id: "range_permutes id"
  by (simp add: range_permutes_def)

subsection \<open>The frame size\<close>

lemma size_unfold: "ParseGrpc_size data =
   int64 (int64 (push_bit 8 (int64 (int64 (push_bit 8 (int64 (int64 (push_bit 8
     (int64 (int64 (push_bit 8 (int64 (int64 (push_bit 8 0) + int (unat (data ! 0)))))
       + int (unat (data ! 1))))) + int (unat (data ! 2))))) + int (unat (data ! 3)))))
       + int (unat (data ! 4)))"
  by (simp add: ParseGrpc_size_def upt_rec numeral_eq_Suc)

lemma byte_bound: "uint (b :: byte) < 256"
  using uint_bounded [of b] by simp

lemma int64_id: "- (2 ^ 63) \<le> i \<Longrightarrow> i < 2 ^ 63 \<Longrightarrow> int64 i = i"
  by (simp add: int64_def signed_take_bit_int_eq_self_iff)

lemma size_step:
  assumes "0 \<le> s" "s < 2 ^ 32" "0 \<le> b" "b < 256"
  shows "int64 (int64 (push_bit 8 s) + b) = s * 256 + b"
proof -
  have "int64 (push_bit 8 s) = s * 256"
    using assms by (simp add: int64_id push_bit_eq_mult)
  then show ?thesis
    using assms by (simp add: int64_id)
qed

text \<open>No step of the size loop overflows: the size is the 40-bit big-endian value of
  the five header bytes.\<close>

lemma ParseGrpc_size_eq:
  "ParseGrpc_size data = int (unat (data ! 0)) * 2 ^ 32 + frame_length_spec data"
proof -
  define b0 b1 b2 b3 b4 where "b0 = uint (data ! 0)" and "b1 = uint (data ! 1)"
    and "b2 = uint (data ! 2)" and "b3 = uint (data ! 3)" and "b4 = uint (data ! 4)"
  have b: "0 \<le> b0" "b0 < 256" "0 \<le> b1" "b1 < 256" "0 \<le> b2" "b2 < 256"
    "0 \<le> b3" "b3 < 256" "0 \<le> b4" "b4 < 256"
    by (simp_all add: b0_def b1_def b2_def b3_def b4_def byte_bound)
  have s0: "int64 (int64 (push_bit 8 0) + b0) = b0"
    using size_step [of 0 b0] b by simp
  have s1: "int64 (int64 (push_bit 8 b0) + b1) = b0 * 256 + b1"
    using size_step [of b0 b1] b by simp
  have s2: "int64 (int64 (push_bit 8 (b0 * 256 + b1)) + b2) = (b0 * 256 + b1) * 256 + b2"
    using size_step [of "b0 * 256 + b1" b2] b by simp
  have s3: "int64 (int64 (push_bit 8 ((b0 * 256 + b1) * 256 + b2)) + b3)
      = ((b0 * 256 + b1) * 256 + b2) * 256 + b3"
    using size_step [of "(b0 * 256 + b1) * 256 + b2" b3] b by simp
  have s4: "int64 (int64 (push_bit 8 (((b0 * 256 + b1) * 256 + b2) * 256 + b3)) + b4)
      = (((b0 * 256 + b1) * 256 + b2) * 256 + b3) * 256 + b4"
    using size_step [of "((b0 * 256 + b1) * 256 + b2) * 256 + b3" b4] b by simp
  have "ParseGrpc_size data = (((b0 * 256 + b1) * 256 + b2) * 256 + b3) * 256 + b4"
    unfolding size_unfold
    by (simp only: of_nat_unat b0_def [symmetric] b1_def [symmetric] b2_def [symmetric]
        b3_def [symmetric] b4_def [symmetric] s0 s1 s2 s3 s4)
  then show ?thesis
    by (simp add: frame_length_spec_def b0_def b1_def b2_def b3_def b4_def)
qed

subsection \<open>A varint that fails where a tag is expected\<close>

text \<open>
  \<^verbatim>\<open>ParseTag\<close> does not look at the count \<open>n\<close>: when \<^verbatim>\<open>DecodeVarint\<close> fails with
  \<open>(0, 0)\<close> the tag is field 0 of type \<^verbatim>\<open>Varint\<close> with no byte consumed, the value
  is decoded from the same bytes and fails the same way, and the loop is back at the
  same position: it never returns.
\<close>

lemma ParseTag_failed_varint:
  "DecodeVarint data = (0, 0) \<Longrightarrow> ParseTag data = Inr (Tag 0 0, 0)"
  by (simp add: ParseTag_def wire_defs)

lemma ParseProto_loop_stuck_aux:
  assumes "ParseProto_loop data pos msg = Some y"
  shows "\<not> (pos < length data \<and> DecodeVarint (drop pos data) = (0, 0))"
proof (rule ParseProto_loop.raw_induct
    [where P = "\<lambda>data pos msg y. \<not> (pos < length data \<and> DecodeVarint (drop pos data) = (0, 0))",
      OF _ assms], goal_cases)
  case (1 loop data pos msg y)
  show ?case
  proof
    assume a: "pos < length data \<and> DecodeVarint (drop pos data) = (0, 0)"
    with 1(2) have "loop data pos (addField msg 0 (Field (Some 0) None None None)) = Some y"
      by (simp add: ParseTag_failed_varint wire_defs)
    from 1(1) [OF this] a show False by simp
  qed
qed

lemma ParseProto_loop_stuck:
  "pos < length data \<Longrightarrow> DecodeVarint (drop pos data) = (0, 0) \<Longrightarrow>
     ParseProto_loop data pos msg = None"
  using ParseProto_loop_stuck_aux [of data pos msg]
  by (cases "ParseProto_loop data pos msg") auto

section \<open>The properties\<close>

text \<open>
  Claim C1, as the code has it. With fewer than 5 bytes \<^verbatim>\<open>ParseGrpc\<close> fails with the
  missing-frame-size error. Otherwise the frame length is the big-endian value of all
  five header bytes, byte 0 included as the most significant one, so it is the 32-bit
  value of bytes 1 to 4 exactly when byte 0 is zero; and when fewer bytes than that
  length remain after the header, \<^verbatim>\<open>ParseGrpc\<close> fails with the incomplete-frame error.
\<close>

theorem ParseGrpc_frame_length:
  "(length data < 5 \<longrightarrow>
      ParseGrpc data = Some (Inl (Error (MissingFrameSize (length data))))) \<and>
   (5 \<le> length data \<longrightarrow>
      ParseGrpc_size data = int (unat (data ! 0)) * 2 ^ 32 + frame_length_spec data \<and>
      (data ! 0 = 0 \<longrightarrow> ParseGrpc_size data = frame_length_spec data) \<and>
      (int (length data) - 5 < ParseGrpc_size data \<longrightarrow>
         ParseGrpc data =
           Some (Inl (Error (IncompleteFrame (ParseGrpc_size data) (length data - 5))))))"
  by (simp add: ParseGrpc_def ParseGrpc_size_eq Let_def)

theorem ParseGrpc_frame_length_witness:
  "ParseGrpc [0, 0] = Some (Inl (Error (MissingFrameSize 2))) \<and>
   ParseGrpc_size [0, 0, 0, 1, 2, 9] = 258 \<and>
   ParseGrpc [0, 0, 0, 1, 2, 9] = Some (Inl (Error (IncompleteFrame 258 1)))"
  using ParseGrpc_frame_length [of "[0, 0]"] ParseGrpc_frame_length [of "[0, 0, 0, 1, 2, 9]"]
  by (simp add: frame_length_spec_def)

text \<open>
  The claim as the specification words it (byte 0 ignored) fails on the header
  \<open>01 00 00 00 00\<close>: bytes 1 to 4 give the length 0, the code computes \<open>2^32\<close> and
  reports an incomplete frame.
\<close>

theorem ParseGrpc_flag_byte_counterexample:
  "ParseGrpc_size [1, 0, 0, 0, 0] \<noteq> frame_length_spec [1, 0, 0, 0, 0] \<and>
   frame_length_spec [1, 0, 0, 0, 0] = 0 \<and>
   ParseGrpc [1, 0, 0, 0, 0] = Some (Inl (Error (IncompleteFrame 4294967296 0)))"
  by (simp add: ParseGrpc_def ParseGrpc_size_def upt_rec int64_def frame_length_spec_def)

text \<open>
  Claim C2, as the code has it. The payload \<open>68 69\<close> ("hi") is itself a complete
  message: \<open>68\<close> is the tag of field 13 with type \<^verbatim>\<open>Varint\<close>, \<open>69\<close> the value 105. The
  recursive decode succeeds and the field is stored as a nested message, so the bytes
  \<open>0a 02 68 69\<close> decode and render as \<^verbatim>\<open>{"1":{"13":105}}\<close>, whatever order the map
  is visited in.
\<close>

theorem hi_is_nested_message:
  \<open>range_permutes ord \<Longrightarrow>
     ParseProto [0x68, 0x69] = Some (Inr ([(13, [Field (Some 105) None None None])], 2)) \<and>
     ParseProto [0x0a, 0x02, 0x68, 0x69] =
       Some (Inr ([(1, [Field None None (Some [(13, [Field (Some 105) None None None])])
                          None])], 4)) \<and>
     Render ord [(1, [Field None None (Some [(13, [Field (Some 105) None None None])]) None])]
       = ''{"1":{"13":105}}''\<close>
proof -
  assume "range_permutes ord"
  then have single: "ord [s] = [s]" for s
    by (rule range_permutes_single)
  have "ParseProto [0x68, 0x69] = Some (Inr ([(13, [Field (Some 105) None None None])], 2))"
    by (simp add: run_defs)
  moreover have "ParseProto [0x0a, 0x02, 0x68, 0x69] =
       Some (Inr ([(1, [Field None None (Some [(13, [Field (Some 105) None None None])])
                          None])], 4))"
    by (simp add: run_defs)
  moreover have
    \<open>Render ord [(1, [Field None None (Some [(13, [Field (Some 105) None None None])]) None])]
       = ''{"1":{"13":105}}''\<close>
    by (simp add: single fmt_defs)
  ultimately show ?thesis by simp
qed

theorem hi_is_nested_message_witness:
  \<open>ParseProto [0x68, 0x69] = Some (Inr ([(13, [Field (Some 105) None None None])], 2)) \<and>
   ParseProto [0x0a, 0x02, 0x68, 0x69] =
     Some (Inr ([(1, [Field None None (Some [(13, [Field (Some 105) None None None])])
                        None])], 4)) \<and>
   Render id
       [(1, [Field None None (Some [(13, [Field (Some 105) None None None])]) None])]
     = ''{"1":{"13":105}}''\<close>
  using hi_is_nested_message [OF range_permutes_id] by simp

text \<open>
  The claim as stated fails: the message decoded from \<open>0a 02 68 69\<close> has one key at each
  level, so there is one order to visit it in, and its rendering is not \<^verbatim>\<open>{"1":"hi"}\<close>.
\<close>

theorem hi_not_text_counterexample:
  \<open>ParseProto [0x0a, 0x02, 0x68, 0x69] =
     Some (Inr ([(1, [Field None None (Some [(13, [Field (Some 105) None None None])])
                        None])], 4)) \<and>
   Render id
       [(1, [Field None None (Some [(13, [Field (Some 105) None None None])]) None])]
     \<noteq> ''{"1":"hi"}''\<close>
  by (simp add: run_defs fmt_defs)

text \<open>
  Claim C3 does not hold of the code. A field with the bytes variant renders as \<^verbatim>\<open>&\<close>
  followed by the lowercase hexadecimal digits, since \<^verbatim>\<open>RenderField\<close> formats the
  pointer \<^verbatim>\<open>f.bytes\<close> and not the slice it points to: the bytes \<open>ff fe\<close> give \<^verbatim>\<open>&fffe\<close>.
  Moreover a length-delimited field with the payload \<open>ff fe\<close> is never classified:
  the recursive decode of the payload does not return.
\<close>

theorem bytes_render_with_ampersand:
  \<open>RenderField ord (Field None None None (Some bs)) = ''&'' @ format_x bs \<and>
   RenderField ord (Field None None None (Some [0xFF, 0xFE])) = ''&fffe'' \<and>
   ParseProto [0xFF, 0xFE] = None \<and>
   ParseProto [0x0a, 0x02, 0xFF, 0xFE] = None\<close>
proof -
  have inner: "ParseProto_loop [0xFF, 0xFE] 0 msg = None" for msg
    by (rule ParseProto_loop_stuck) (simp_all add: DecodeVarint_def)
  have "ParseProto [0x0a, 0x02, 0xFF, 0xFE] = None"
    by (simp add: ParseProto_def ParseProto_loop.simps [of "[0x0a, 0x02, 0xFF, 0xFE]"]
        ParseTag_def DecodeVarint_def wire_defs int64_def inner)
  moreover have "RenderField ord (Field None None None (Some [0xFF, 0xFE])) = ''&fffe''"
    by (simp add: fmt_defs)
  ultimately show ?thesis
    by (simp add: ParseProto_def inner)
qed

text \<open>
  Claim C4 does not hold of the code. On the single byte \<open>80\<close> (a varint whose
  continuation never ends) \<^verbatim>\<open>ParseProto\<close> does not return, and neither does
  \<^verbatim>\<open>ParseGrpc\<close> on that byte framed with the length 1.
\<close>

theorem truncated_tag_never_returns:
  "ParseProto [0x80] = None \<and> ParseGrpc [0, 0, 0, 0, 1, 0x80] = None"
  by (simp add: ParseGrpc_def ParseGrpc_size_def upt_rec int64_def ParseProto_def
      ParseProto_loop_stuck DecodeVarint_def)

text \<open>
  Claim C5 does not hold of the code. The field \<open>08 05\<close> (field 1, varint 5) with its
  payload truncated by one byte is \<open>08\<close>; decoding it succeeds, with the value 0 for
  field 1 and one byte consumed.
\<close>

theorem truncated_varint_reads_zero:
  "ParseProto [0x08, 0x05] = Some (Inr ([(1, [Field (Some 5) None None None])], 2)) \<and>
   ParseProto [0x08] = Some (Inr ([(1, [Field (Some 0) None None None])], 1))"
  by (simp add: run_defs)

text \<open>
  Claim C6 does not hold of the code. For the payload \<open>80\<close> the classifier yields no
  variant: the recursive decode does not return, so neither does the enclosing decode
  of \<open>0a 01 80\<close>. For the payload \<open>0a ff ff ff ff ff ff ff ff ff 01\<close> (a length-delimited
  field whose length is \<open>2^64 - 1\<close>, which \<^verbatim>\<open>int(x)\<close> reads as \<open>-1\<close>) the recursive decode
  panics on its slice expression, and the panic reaches the caller.
\<close>

theorem classifier_hangs_or_panics:
  "ParseProto [0x0a, 0x01, 0x80] = None \<and>
   ParseProto [0x0a, 0xff, 0xff, 0xff, 0xff, 0xff, 0xff, 0xff, 0xff, 0xff, 0x01]
     = Some (Inl Panic) \<and>
   ParseProto [0x0a, 0x0b, 0x0a, 0xff, 0xff, 0xff, 0xff, 0xff, 0xff, 0xff, 0xff, 0xff, 0x01]
     = Some (Inl Panic)"
proof -
  have inner: "ParseProto_loop [0x80] 0 msg = None" for msg
    by (rule ParseProto_loop_stuck) (simp_all add: DecodeVarint_def)
  have "ParseProto [0x0a, 0x01, 0x80] = None"
    by (simp add: ParseProto_def ParseProto_loop.simps [of "[0x0a, 0x01, 0x80]"]
        ParseTag_def DecodeVarint_def wire_defs int64_def inner)
  moreover have
    "ParseProto [0x0a, 0xff, 0xff, 0xff, 0xff, 0xff, 0xff, 0xff, 0xff, 0xff, 0x01]
       = Some (Inl Panic)"
    by (simp add: run_defs)
  moreover have
    "ParseProto [0x0a, 0x0b, 0x0a, 0xff, 0xff, 0xff, 0xff, 0xff, 0xff, 0xff, 0xff, 0xff, 0x01]
       = Some (Inl Panic)"
    by (simp add: run_defs)
  ultimately show ?thesis by simp
qed

text \<open>
  Claim C7. Let \<open>x\<close> be the varint \<^verbatim>\<open>ParseTag\<close> decodes and \<open>n\<close> its length. When the
  low three bits of \<open>x\<close> are not 0, 1, 2 or 5 (so for 3 and 4 in particular), \<^verbatim>\<open>ParseTag\<close>
  fails with the invalid-field-type error carrying those bits; otherwise it returns the
  tag with field number \<open>x >> 3\<close> and type \<open>x & 7\<close>, and \<open>n\<close>.
\<close>

theorem ParseTag_wire_type:
  "DecodeVarint data = (x, n) \<Longrightarrow>
   (x AND 7 \<notin> {0, 1, 2, 5} \<longrightarrow> ParseTag data = Inl (Error (InvalidFieldType (x AND 7)))) \<and>
   (x AND 7 \<in> {0, 1, 2, 5} \<longrightarrow> ParseTag data = Inr (Tag (drop_bit 3 x) (x AND 7), n))"
  by (auto simp: ParseTag_def wire_defs Let_def)

theorem ParseTag_wire_type_witness:
  "ParseTag [0x0b] = Inl (Error (InvalidFieldType 3)) \<and>
   ParseTag [0x0c] = Inl (Error (InvalidFieldType 4)) \<and>
   ParseTag [0xba, 0x01] = Inr (Tag 23 2, 2)"
  using ParseTag_wire_type [of "[0x0b]" 11 1] ParseTag_wire_type [of "[0x0c]" 12 1]
    ParseTag_wire_type [of "[0xba, 0x01]" 186 2]
  by (simp add: DecodeVarint_def)

section \<open>An induction rule for runs of the decoding loop that return\<close>

text \<open>
  One case for every way a turn of the loop of \<^verbatim>\<open>ParseProto\<close> can go. A case that
  continues the loop (or calls \<^verbatim>\<open>ParseProto\<close> on the content of a field) has the
  property for the continued run (and for the recursive one) as hypothesis.
\<close>

lemma ParseProto_loop_induct
  [consumes 1, case_names finished tag_error varint fixed32_error fixed32 fixed64_error
    fixed64 too_long slice_panic sub_panic sub_message as_text as_bytes other]:
  assumes run: "ParseProto_loop data pos msg = Some y"
    and finished: "\<And>data pos msg. \<not> pos < length data \<Longrightarrow> P data pos msg (Inr (msg, pos))"
    and tag_error: "\<And>data pos msg err. pos < length data \<Longrightarrow>
        ParseTag (drop pos data) = Inl err \<Longrightarrow> P data pos msg (Inl err)"
    and varint: "\<And>data pos msg tag n x k y. pos < length data \<Longrightarrow>
        ParseTag (drop pos data) = Inr (tag, n) \<Longrightarrow> typ' tag = Varint \<Longrightarrow>
        DecodeVarint (drop (pos + n) data) = (x, k) \<Longrightarrow>
        ParseProto_loop data (pos + n + k)
          (addField msg (fieldID tag) (Field (Some x) None None None)) = Some y \<Longrightarrow>
        P data (pos + n + k) (addField msg (fieldID tag) (Field (Some x) None None None)) y \<Longrightarrow>
        P data pos msg y"
    and fixed32_error: "\<And>data pos msg tag n err. pos < length data \<Longrightarrow>
        ParseTag (drop pos data) = Inr (tag, n) \<Longrightarrow> typ' tag = B32 \<Longrightarrow>
        DecodeFixed32 (drop (pos + n) data) = Inl err \<Longrightarrow> P data pos msg (Inl err)"
    and fixed32: "\<And>data pos msg tag n x y. pos < length data \<Longrightarrow>
        ParseTag (drop pos data) = Inr (tag, n) \<Longrightarrow> typ' tag = B32 \<Longrightarrow>
        DecodeFixed32 (drop (pos + n) data) = Inr x \<Longrightarrow>
        ParseProto_loop data (pos + n + 4)
          (addField msg (fieldID tag) (Field (Some x) None None None)) = Some y \<Longrightarrow>
        P data (pos + n + 4) (addField msg (fieldID tag) (Field (Some x) None None None)) y \<Longrightarrow>
        P data pos msg y"
    and fixed64_error: "\<And>data pos msg tag n err. pos < length data \<Longrightarrow>
        ParseTag (drop pos data) = Inr (tag, n) \<Longrightarrow> typ' tag = B64 \<Longrightarrow>
        DecodeFixed64 (drop (pos + n) data) = Inl err \<Longrightarrow> P data pos msg (Inl err)"
    and fixed64: "\<And>data pos msg tag n x y. pos < length data \<Longrightarrow>
        ParseTag (drop pos data) = Inr (tag, n) \<Longrightarrow> typ' tag = B64 \<Longrightarrow>
        DecodeFixed64 (drop (pos + n) data) = Inr x \<Longrightarrow>
        ParseProto_loop data (pos + n + 8)
          (addField msg (fieldID tag) (Field (Some x) None None None)) = Some y \<Longrightarrow>
        P data (pos + n + 8) (addField msg (fieldID tag) (Field (Some x) None None None)) y \<Longrightarrow>
        P data pos msg y"
    and too_long: "\<And>data pos msg tag n x k. pos < length data \<Longrightarrow>
        ParseTag (drop pos data) = Inr (tag, n) \<Longrightarrow> typ' tag = LengthDelim \<Longrightarrow>
        DecodeVarint (drop (pos + n) data) = (x, k) \<Longrightarrow>
        int (length data) < int64 (int (pos + n + k) + sint x) \<Longrightarrow>
        P data pos msg
          (Inl (Error (NotEnoughBytes x (int (length data) - int (pos + n + k)))))"
    and slice_panic: "\<And>data pos msg tag n x k. pos < length data \<Longrightarrow>
        ParseTag (drop pos data) = Inr (tag, n) \<Longrightarrow> typ' tag = LengthDelim \<Longrightarrow>
        DecodeVarint (drop (pos + n) data) = (x, k) \<Longrightarrow>
        int64 (int (pos + n + k) + sint x) \<le> int (length data) \<Longrightarrow>
        int64 (int (pos + n + k) + sint x) < int (pos + n + k) \<Longrightarrow>
        P data pos msg (Inl Panic)"
    and sub_panic: "\<And>data pos msg tag n x k hi content. pos < length data \<Longrightarrow>
        ParseTag (drop pos data) = Inr (tag, n) \<Longrightarrow> typ' tag = LengthDelim \<Longrightarrow>
        DecodeVarint (drop (pos + n) data) = (x, k) \<Longrightarrow>
        hi = int64 (int (pos + n + k) + sint x) \<Longrightarrow>
        hi \<le> int (length data) \<Longrightarrow> int (pos + n + k) \<le> hi \<Longrightarrow>
        content = take (nat hi - (pos + n + k)) (drop (pos + n + k) data) \<Longrightarrow>
        ParseProto_loop content 0 [] = Some (Inl Panic) \<Longrightarrow>
        P content 0 [] (Inl Panic) \<Longrightarrow>
        P data pos msg (Inl Panic)"
    and sub_message: "\<And>data pos msg tag n x k hi content sub j y. pos < length data \<Longrightarrow>
        ParseTag (drop pos data) = Inr (tag, n) \<Longrightarrow> typ' tag = LengthDelim \<Longrightarrow>
        DecodeVarint (drop (pos + n) data) = (x, k) \<Longrightarrow>
        hi = int64 (int (pos + n + k) + sint x) \<Longrightarrow>
        hi \<le> int (length data) \<Longrightarrow> int (pos + n + k) \<le> hi \<Longrightarrow>
        content = take (nat hi - (pos + n + k)) (drop (pos + n + k) data) \<Longrightarrow>
        ParseProto_loop content 0 [] = Some (Inr (sub, j)) \<Longrightarrow>
        P content 0 [] (Inr (sub, j)) \<Longrightarrow>
        ParseProto_loop data (nat hi)
          (addField msg (fieldID tag) (Field None None (Some sub) None)) = Some y \<Longrightarrow>
        P data (nat hi) (addField msg (fieldID tag) (Field None None (Some sub) None)) y \<Longrightarrow>
        P data pos msg y"
    and as_text: "\<And>data pos msg tag n x k hi content err y. pos < length data \<Longrightarrow>
        ParseTag (drop pos data) = Inr (tag, n) \<Longrightarrow> typ' tag = LengthDelim \<Longrightarrow>
        DecodeVarint (drop (pos + n) data) = (x, k) \<Longrightarrow>
        hi = int64 (int (pos + n + k) + sint x) \<Longrightarrow>
        hi \<le> int (length data) \<Longrightarrow> int (pos + n + k) \<le> hi \<Longrightarrow>
        content = take (nat hi - (pos + n + k)) (drop (pos + n + k) data) \<Longrightarrow>
        ParseProto_loop content 0 [] = Some (Inl (Error err)) \<Longrightarrow>
        P content 0 [] (Inl (Error err)) \<Longrightarrow>
        utf8_Valid content \<Longrightarrow>
        ParseProto_loop data (nat hi)
          (addField msg (fieldID tag) (Field None (Some content) None None)) = Some y \<Longrightarrow>
        P data (nat hi) (addField msg (fieldID tag) (Field None (Some content) None None)) y \<Longrightarrow>
        P data pos msg y"
    and as_bytes: "\<And>data pos msg tag n x k hi content err y. pos < length data \<Longrightarrow>
        ParseTag (drop pos data) = Inr (tag, n) \<Longrightarrow> typ' tag = LengthDelim \<Longrightarrow>
        DecodeVarint (drop (pos + n) data) = (x, k) \<Longrightarrow>
        hi = int64 (int (pos + n + k) + sint x) \<Longrightarrow>
        hi \<le> int (length data) \<Longrightarrow> int (pos + n + k) \<le> hi \<Longrightarrow>
        content = take (nat hi - (pos + n + k)) (drop (pos + n + k) data) \<Longrightarrow>
        ParseProto_loop content 0 [] = Some (Inl (Error err)) \<Longrightarrow>
        P content 0 [] (Inl (Error err)) \<Longrightarrow>
        \<not> utf8_Valid content \<Longrightarrow>
        ParseProto_loop data (nat hi)
          (addField msg (fieldID tag) (Field None None None (Some content))) = Some y \<Longrightarrow>
        P data (nat hi) (addField msg (fieldID tag) (Field None None None (Some content))) y \<Longrightarrow>
        P data pos msg y"
    and other: "\<And>data pos msg tag n y. pos < length data \<Longrightarrow>
        ParseTag (drop pos data) = Inr (tag, n) \<Longrightarrow>
        typ' tag \<noteq> Varint \<Longrightarrow> typ' tag \<noteq> B32 \<Longrightarrow> typ' tag \<noteq> B64 \<Longrightarrow>
        typ' tag \<noteq> LengthDelim \<Longrightarrow>
        ParseProto_loop data (pos + n) msg = Some y \<Longrightarrow>
        P data (pos + n) msg y \<Longrightarrow> P data pos msg y"
  shows "P data pos msg y"
proof -
  have "ParseProto_loop data pos msg = Some y \<and> P data pos msg y"
  proof (rule ParseProto_loop.raw_induct
      [where P = "\<lambda>data pos msg y. ParseProto_loop data pos msg = Some y \<and> P data pos msg y",
        OF _ run], goal_cases)
    case (1 loop data pos msg y)
    note IH = 1(1) and step = 1(2)
    show ?case
    proof (cases "pos < length data")
      case False
      with step have "y = Inr (msg, pos)" by simp
      with False finished [OF False] show ?thesis
        by (subst ParseProto_loop.simps) simp
    next
      case lt: True
      show ?thesis
      proof (cases "ParseTag (drop pos data)")
        case (Inl err)
        with step lt have "y = Inl err" by simp
        with lt Inl tag_error [OF lt Inl] show ?thesis
          by (subst ParseProto_loop.simps) simp
      next
        case (Inr p)
        obtain tag n where p: "p = (tag, n)" by (cases p)
        note tg = Inr [unfolded p]
        consider (V) "typ' tag = Varint" | (F32) "typ' tag = B32" | (F64) "typ' tag = B64"
          | (LD) "typ' tag = LengthDelim"
          | (O) "typ' tag \<noteq> Varint" "typ' tag \<noteq> B32" "typ' tag \<noteq> B64"
            "typ' tag \<noteq> LengthDelim"
          by blast
        then show ?thesis
        proof cases
          case V
          obtain x k where d: "DecodeVarint (drop (pos + n) data) = (x, k)"
            by (cases "DecodeVarint (drop (pos + n) data)")
          from step lt tg V d
          have "loop data (pos + n + k)
              (addField msg (fieldID tag) (Field (Some x) None None None)) = Some y"
            by simp
          from IH [OF this] have r: "ParseProto_loop data (pos + n + k)
              (addField msg (fieldID tag) (Field (Some x) None None None)) = Some y"
            and q: "P data (pos + n + k)
              (addField msg (fieldID tag) (Field (Some x) None None None)) y"
            by simp_all
          have "ParseProto_loop data pos msg = Some y"
            using lt tg V d r by (subst ParseProto_loop.simps) simp
          with varint [OF lt tg V d r q] show ?thesis by simp
        next
          case F32
          show ?thesis
          proof (cases "DecodeFixed32 (drop (pos + n) data)")
            case (Inl err)
            with step lt tg F32 have "y = Inl err" by (simp add: wire_defs)
            with lt tg F32 Inl fixed32_error [OF lt tg F32 Inl] show ?thesis
              by (subst ParseProto_loop.simps) (simp add: wire_defs)
          next
            case (Inr x)
            with step lt tg F32
            have "loop data (pos + n + 4)
                (addField msg (fieldID tag) (Field (Some x) None None None)) = Some y"
              by (simp add: wire_defs)
            from IH [OF this] have r: "ParseProto_loop data (pos + n + 4)
                (addField msg (fieldID tag) (Field (Some x) None None None)) = Some y"
              and q: "P data (pos + n + 4)
                (addField msg (fieldID tag) (Field (Some x) None None None)) y"
              by simp_all
            have "ParseProto_loop data pos msg = Some y"
              using lt tg F32 Inr r by (subst ParseProto_loop.simps) (simp add: wire_defs)
            with fixed32 [OF lt tg F32 Inr r q] show ?thesis by simp
          qed
        next
          case F64
          show ?thesis
          proof (cases "DecodeFixed64 (drop (pos + n) data)")
            case (Inl err)
            with step lt tg F64 have "y = Inl err" by (simp add: wire_defs)
            with lt tg F64 Inl fixed64_error [OF lt tg F64 Inl] show ?thesis
              by (subst ParseProto_loop.simps) (simp add: wire_defs)
          next
            case (Inr x)
            with step lt tg F64
            have "loop data (pos + n + 8)
                (addField msg (fieldID tag) (Field (Some x) None None None)) = Some y"
              by (simp add: wire_defs)
            from IH [OF this] have r: "ParseProto_loop data (pos + n + 8)
                (addField msg (fieldID tag) (Field (Some x) None None None)) = Some y"
              and q: "P data (pos + n + 8)
                (addField msg (fieldID tag) (Field (Some x) None None None)) y"
              by simp_all
            have "ParseProto_loop data pos msg = Some y"
              using lt tg F64 Inr r by (subst ParseProto_loop.simps) (simp add: wire_defs)
            with fixed64 [OF lt tg F64 Inr r q] show ?thesis by simp
          qed
        next
          case LD
          obtain x k where d: "DecodeVarint (drop (pos + n) data) = (x, k)"
            by (cases "DecodeVarint (drop (pos + n) data)")
          let ?hi = "int64 (int (pos + n + k) + sint x)"
          let ?content = "take (nat ?hi - (pos + n + k)) (drop (pos + n + k) data)"
          consider (long) "int (length data) < ?hi"
            | (neg) "?hi \<le> int (length data)" "?hi < int (pos + n + k)"
            | (rec) "?hi \<le> int (length data)" "int (pos + n + k) \<le> ?hi"
            by linarith
          then show ?thesis
          proof cases
            case long
            with step lt tg LD d
            have "y = Inl (Error (NotEnoughBytes x (int (length data) - int (pos + n + k))))"
              by (simp add: wire_defs Let_def)
            moreover have "ParseProto_loop data pos msg =
                Some (Inl (Error (NotEnoughBytes x (int (length data) - int (pos + n + k)))))"
              using lt tg LD d long by (subst ParseProto_loop.simps) (simp add: wire_defs Let_def)
            ultimately show ?thesis
              using too_long [OF lt tg LD d long] by simp
          next
            case neg
            with step lt tg LD d have "y = Inl Panic"
              by (simp add: wire_defs Let_def)
            moreover have "ParseProto_loop data pos msg = Some (Inl Panic)"
              using lt tg LD d neg by (subst ParseProto_loop.simps) (simp add: wire_defs Let_def)
            ultimately show ?thesis
              using slice_panic [OF lt tg LD d neg] by simp
          next
            case rec
            have unf: "ParseProto_loop data pos msg =
                ParseProto_loop ?content 0 [] \<bind> (\<lambda>r.
                       case r of
                         Inr (subMsg, _) \<Rightarrow>
                           ParseProto_loop data (nat ?hi)
                             (addField msg (fieldID tag) (Field None None (Some subMsg) None))
                       | Inl (Error _) \<Rightarrow>
                           if utf8_Valid ?content then
                             ParseProto_loop data (nat ?hi)
                               (addField msg (fieldID tag) (Field None (Some ?content) None None))
                           else
                             ParseProto_loop data (nat ?hi)
                               (addField msg (fieldID tag) (Field None None None (Some ?content)))
                       | Inl Panic \<Rightarrow> Some (Inl Panic))"
              using lt tg LD d rec
              by (subst ParseProto_loop.simps) (simp add: wire_defs Let_def del: of_nat_add)
            from step lt tg LD d rec
            have "loop ?content 0 [] \<bind> (\<lambda>r.
                       case r of
                         Inr (subMsg, _) \<Rightarrow>
                           loop data (nat ?hi)
                             (addField msg (fieldID tag) (Field None None (Some subMsg) None))
                       | Inl (Error _) \<Rightarrow>
                           if utf8_Valid ?content then
                             loop data (nat ?hi)
                               (addField msg (fieldID tag) (Field None (Some ?content) None None))
                           else
                             loop data (nat ?hi)
                               (addField msg (fieldID tag) (Field None None None (Some ?content)))
                       | Inl Panic \<Rightarrow> Some (Inl Panic)) = Some y"
              by (simp add: wire_defs Let_def del: of_nat_add)
            then obtain r where r: "loop ?content 0 [] = Some r"
              and c: "(case r of
                         Inr (subMsg, _) \<Rightarrow>
                           loop data (nat ?hi)
                             (addField msg (fieldID tag) (Field None None (Some subMsg) None))
                       | Inl (Error _) \<Rightarrow>
                           if utf8_Valid ?content then
                             loop data (nat ?hi)
                               (addField msg (fieldID tag) (Field None (Some ?content) None None))
                           else
                             loop data (nat ?hi)
                               (addField msg (fieldID tag) (Field None None None (Some ?content)))
                       | Inl Panic \<Rightarrow> Some (Inl Panic)) = Some y"
              by (auto simp: bind_eq_Some_conv)
            from IH [OF r] have r': "ParseProto_loop ?content 0 [] = Some r"
              and rq: "P ?content 0 [] r" by simp_all
            show ?thesis
            proof (cases r)
              case (Inr sm)
              obtain sub j where sm: "sm = (sub, j)" by (cases sm)
              from c Inr sm have "loop data (nat ?hi)
                  (addField msg (fieldID tag) (Field None None (Some sub) None)) = Some y"
                by simp
              from IH [OF this] have t: "ParseProto_loop data (nat ?hi)
                  (addField msg (fieldID tag) (Field None None (Some sub) None)) = Some y"
                and q: "P data (nat ?hi)
                  (addField msg (fieldID tag) (Field None None (Some sub) None)) y"
                by simp_all
              have "ParseProto_loop data pos msg = Some y"
                unfolding unf using r' Inr sm t by simp
              with sub_message [OF lt tg LD d refl rec refl
                  r' [unfolded Inr sm] rq [unfolded Inr sm] t q]
              show ?thesis by simp
            next
              case (Inl f)
              show ?thesis
              proof (cases f)
                case Panic
                with c Inl have y: "y = Inl Panic" by simp
                have "ParseProto_loop data pos msg = Some y"
                  unfolding unf using r' Inl Panic y by simp
                with y sub_panic [OF lt tg LD d refl rec refl
                    r' [unfolded Inl Panic] rq [unfolded Inl Panic]]
                show ?thesis by simp
              next
                case (Error err)
                show ?thesis
                proof (cases "utf8_Valid ?content")
                  case True
                  with c Inl Error have "loop data (nat ?hi)
                      (addField msg (fieldID tag) (Field None (Some ?content) None None)) = Some y"
                    by simp
                  from IH [OF this] have t: "ParseProto_loop data (nat ?hi)
                      (addField msg (fieldID tag) (Field None (Some ?content) None None)) = Some y"
                    and q: "P data (nat ?hi)
                      (addField msg (fieldID tag) (Field None (Some ?content) None None)) y"
                    by simp_all
                  have "ParseProto_loop data pos msg = Some y"
                    unfolding unf using r' Inl Error True t by simp
                  with as_text [OF lt tg LD d refl rec refl
                      r' [unfolded Inl Error] rq [unfolded Inl Error] True t q]
                  show ?thesis by simp
                next
                  case False
                  with c Inl Error have "loop data (nat ?hi)
                      (addField msg (fieldID tag) (Field None None None (Some ?content))) = Some y"
                    by simp
                  from IH [OF this] have t: "ParseProto_loop data (nat ?hi)
                      (addField msg (fieldID tag) (Field None None None (Some ?content))) = Some y"
                    and q: "P data (nat ?hi)
                      (addField msg (fieldID tag) (Field None None None (Some ?content))) y"
                    by simp_all
                  have "ParseProto_loop data pos msg = Some y"
                    unfolding unf using r' Inl Error False t by simp
                  with as_bytes [OF lt tg LD d refl rec refl
                      r' [unfolded Inl Error] rq [unfolded Inl Error] False t q]
                  show ?thesis by simp
                qed
              qed
            qed
          qed
        next
          case O
          with step lt tg have "loop data (pos + n) msg = Some y" by simp
          from IH [OF this] have r: "ParseProto_loop data (pos + n) msg = Some y"
            and q: "P data (pos + n) msg y" by simp_all
          have "ParseProto_loop data pos msg = Some y"
            using lt tg O r by (subst ParseProto_loop.simps) simp
          with other [OF lt tg O r q] show ?thesis by simp
        qed
      qed
    qed
  qed
  then show ?thesis by simp
qed

section \<open>Invariants of the decoded message\<close>

lemma list_all_update:
  "list_all Q m \<Longrightarrow> Q (k, v) \<Longrightarrow> list_all Q (AList.update k v m)"
  by (induction m) auto

lemma Message_ok_addField:
  assumes "Message_ok m" "Field_ok f"
  shows "Message_ok (addField m fid f)"
proof (cases "map_of m fid")
  case None
  with assms show ?thesis
    by (simp add: addField_def Message_ok_def list_all_update)
next
  case (Some fields)
  then have "(fid, fields) \<in> set m" by (rule map_of_SomeD)
  with assms(1) have "list_all Field_ok fields"
    by (auto simp: Message_ok_def list_all_iff)
  with assms Some show ?thesis
    by (simp add: addField_def Message_ok_def list_all_update)
qed

lemma Message_ok_add_numeric:
  "Message_ok msg \<Longrightarrow> Message_ok (addField msg fid (Field (Some x) None None None))"
  by (rule Message_ok_addField) (simp_all add: populated_def)

lemma Message_ok_add_string:
  "Message_ok msg \<Longrightarrow> Message_ok (addField msg fid (Field None (Some c) None None))"
  by (rule Message_ok_addField) (simp_all add: populated_def)

lemma Message_ok_add_bytes:
  "Message_ok msg \<Longrightarrow> Message_ok (addField msg fid (Field None None None (Some c)))"
  by (rule Message_ok_addField) (simp_all add: populated_def)

lemma Message_ok_add_message:
  "Message_ok msg \<Longrightarrow> Message_ok sub \<Longrightarrow>
     Message_ok (addField msg fid (Field None None (Some sub) None))"
  by (rule Message_ok_addField) (simp_all add: populated_def Message_ok_def)

lemma ParseProto_loop_ok:
  assumes "ParseProto_loop data pos msg = Some y" "Message_ok msg" "y = Inr (m, n)"
  shows "Message_ok m"
  using assms
proof (induction arbitrary: m n rule: ParseProto_loop_induct)
  case (finished data pos msg)
  then show ?case by simp
next
  case (varint data pos msg tag n x k y)
  from varint.prems(1) have "Message_ok (addField msg (fieldID tag) (Field (Some x) None None None))"
    by (rule Message_ok_add_numeric)
  from varint.IH [OF this varint.prems(2)] show ?case .
next
  case (fixed32 data pos msg tag n x y)
  from fixed32.prems(1) have "Message_ok (addField msg (fieldID tag) (Field (Some x) None None None))"
    by (rule Message_ok_add_numeric)
  from fixed32.IH [OF this fixed32.prems(2)] show ?case .
next
  case (fixed64 data pos msg tag n x y)
  from fixed64.prems(1) have "Message_ok (addField msg (fieldID tag) (Field (Some x) None None None))"
    by (rule Message_ok_add_numeric)
  from fixed64.IH [OF this fixed64.prems(2)] show ?case .
next
  case (sub_message data pos msg tag n x k hi content sub j y)
  have "Message_ok []" by (simp add: Message_ok_def)
  from sub_message.IH(1) [OF this refl] have "Message_ok sub" .
  with sub_message.prems(1)
  have "Message_ok (addField msg (fieldID tag) (Field None None (Some sub) None))"
    by (rule Message_ok_add_message)
  from sub_message.IH(2) [OF this sub_message.prems(2)] show ?case .
next
  case (as_text data pos msg tag n x k hi content err y)
  from as_text.prems(1)
  have "Message_ok (addField msg (fieldID tag) (Field None (Some content) None None))"
    by (rule Message_ok_add_string)
  from as_text.IH(2) [OF this as_text.prems(2)] show ?case .
next
  case (as_bytes data pos msg tag n x k hi content err y)
  from as_bytes.prems(1)
  have "Message_ok (addField msg (fieldID tag) (Field None None None (Some content)))"
    by (rule Message_ok_add_bytes)
  from as_bytes.IH(2) [OF this as_bytes.prems(2)] show ?case .
next
  case (other data pos msg tag n y)
  from other.IH [OF other.prems] show ?case .
qed simp_all

lemma ParseProto_ok: "ParseProto data = Some (Inr (m, n)) \<Longrightarrow> Message_ok m"
  unfolding ParseProto_def
  by (erule ParseProto_loop_ok) (simp_all add: Message_ok_def)

lemma ParseGrpc_ok:
  assumes "ParseGrpc data = Some (Inr (m, n))"
  shows "Message_ok m"
proof -
  let ?r = "ParseProto (take (nat (ParseGrpc_size data)) (drop 5 data))"
  from assms have b: "?r \<bind> (\<lambda>r. case r of
        Inr (msg, n) \<Rightarrow> Some (Inr (msg, n + 5)) | Inl err \<Rightarrow> Some (Inl err))
      = Some (Inr (m, n))"
    by (simp add: ParseGrpc_def Let_def split: if_splits)
  then obtain r where r: "?r = Some r"
    and c: "(case r of Inr (msg, n) \<Rightarrow> Some (Inr (msg, n + 5)) | Inl err \<Rightarrow> Some (Inl err))
      = Some (Inr (m, n))"
    by (auto simp: bind_eq_Some_conv)
  from c obtain k where "r = Inr (m, k)"
    by (cases r) auto
  with r show ?thesis by (auto intro: ParseProto_ok)
qed
lemma Message_ok_field:
  assumes "Message_ok m" "f \<in> set (fields_of m fid)"
  shows "populated f = 1 \<and> (\<forall>sub. message f = Some sub \<longrightarrow> Message_ok sub)"
proof -
  from assms(2) obtain fields where "map_of m fid = Some fields" "f \<in> set fields"
    by (cases "map_of m fid") (simp_all add: fields_of_def)
  then have "(fid, fields) \<in> set m" "f \<in> set fields"
    by (auto dest: map_of_SomeD)
  with assms(1) have "Field_ok f"
    by (auto simp: Message_ok_def list_all_iff)
  then show ?thesis
    by (cases f) (auto simp: Message_ok_def)
qed

text \<open>
  Claim C9. Every message that \<^verbatim>\<open>ParseProto\<close> or \<^verbatim>\<open>ParseGrpc\<close> returns is \<open>Message_ok\<close>;
  and in a message that is \<open>Message_ok\<close>, every field stored under every field number
  has exactly one of its four pointers set, and a nested message it carries is again
  \<open>Message_ok\<close>.
\<close>

theorem decoded_field_has_one_variant:
  "(ParseProto data = Some (Inr (m, n)) \<longrightarrow> Message_ok m) \<and>
   (ParseGrpc data = Some (Inr (m, n)) \<longrightarrow> Message_ok m) \<and>
   (Message_ok m \<and> f \<in> set (fields_of m fid) \<longrightarrow>
      populated f = 1 \<and> (\<forall>sub. message f = Some sub \<longrightarrow> Message_ok sub))"
  using ParseProto_ok [of data m n] ParseGrpc_ok [of data m n] Message_ok_field [of m f fid]
  by blast

theorem decoded_field_has_one_variant_witness:
  "ParseProto [0x0a, 0x02, 0x68, 0x69] =
     Some (Inr ([(1, [Field None None (Some [(13, [Field (Some 105) None None None])])
                        None])], 4)) \<and>
   Message_ok [(1, [Field None None (Some [(13, [Field (Some 105) None None None])]) None])] \<and>
   populated (Field None None (Some [(13, [Field (Some 105) None None None])]) None) = 1 \<and>
   Message_ok [(13, [Field (Some 105) None None None])]"
proof -
  let ?sub = "[(13, [Field (Some 105) None None None])]"
  let ?f = "Field None None (Some ?sub) None"
  let ?m = "[(1, [?f])]"
  have run: "ParseProto [0x0a, 0x02, 0x68, 0x69] = Some (Inr (?m, 4))"
    by (simp add: run_defs)
  note inst = decoded_field_has_one_variant [of "[0x0a, 0x02, 0x68, 0x69]" ?m 4 ?f 1]
  from inst run have ok: "Message_ok ?m" by blast
  have "?f \<in> set (fields_of ?m 1)" by (simp add: fields_of_def)
  with inst ok have "populated ?f = 1 \<and> (\<forall>sub. message ?f = Some sub \<longrightarrow> Message_ok sub)"
    by blast
  with run ok show ?thesis by simp
qed

section \<open>Fields in encounter order\<close>

lemma fields_of_addField:
  "fields_of (addField m fid f) fid' =
     (if fid' = fid then fields_of m fid @ [f] else fields_of m fid')"
  by (simp add: fields_of_def addField_def update_conv' split: option.splits)

lemma ParseProto_loop_keeps_order:
  assumes "ParseProto_loop data pos msg = Some y" "y = Inr (m, n)"
  shows "\<exists>fs. fields_of m fid = fields_of msg fid @ fs"
  using assms
proof (induction arbitrary: m n rule: ParseProto_loop_induct)
  case (finished data pos msg)
  then show ?case by simp
next
  case (varint data pos msg tag n x k y)
  from varint.IH [OF varint.prems] show ?case
    by (auto simp: fields_of_addField split: if_splits)
next
  case (fixed32 data pos msg tag n x y)
  from fixed32.IH [OF fixed32.prems] show ?case
    by (auto simp: fields_of_addField split: if_splits)
next
  case (fixed64 data pos msg tag n x y)
  from fixed64.IH [OF fixed64.prems] show ?case
    by (auto simp: fields_of_addField split: if_splits)
next
  case (sub_message data pos msg tag n x k hi content sub j y)
  from sub_message.IH(2) [OF sub_message.prems] show ?case
    by (auto simp: fields_of_addField split: if_splits)
next
  case (as_text data pos msg tag n x k hi content err y)
  from as_text.IH(2) [OF as_text.prems] show ?case
    by (auto simp: fields_of_addField split: if_splits)
next
  case (as_bytes data pos msg tag n x k hi content err y)
  from as_bytes.IH(2) [OF as_bytes.prems] show ?case
    by (auto simp: fields_of_addField split: if_splits)
next
  case (other data pos msg tag n y)
  from other.IH [OF other.prems] show ?case .
qed simp_all

lemma Render_repeated_map: "Render_repeated ord fs = map (RenderField ord) fs"
  by (induction fs) simp_all

lemma Render_range_map:
  "Render_range ord m =
     map (\<lambda>(fid, fields).
            [CHR 0x22] @ format_d (unat fid) @ [CHR 0x22] @
            (if length fields = 1 then '':'' @ RenderField ord (fields ! 0)
             else '':['' @ Join (map (RenderField ord) fields) '','' @ '']'')) m"
proof (induction m)
  case Nil
  show ?case by simp
next
  case (Cons e m)
  obtain fid fields where e: "e = (fid, fields)" by (cases e)
  show ?case
  proof (cases fields)
    case Nil
    with e Cons show ?thesis by (simp add: Render_repeated_map)
  next
    case (Cons f fs)
    with e Cons.IH show ?thesis
      by (cases fs) (simp_all add: Render_repeated_map)
  qed
qed

section \<open>The empty payload\<close>

text \<open>\<^verbatim>\<open>DecodeVarint\<close> and \<^verbatim>\<open>ParseTag\<close> never report more bytes than the buffer holds, so the
  slice expressions \<^verbatim>\<open>data[pos:]\<close> of the loop stay in range.\<close>

lemma DecodeVarint_loop_le:
  "DecodeVarint_loop buf shift x n = (v, k) \<Longrightarrow> n \<le> length buf \<Longrightarrow> k \<le> length buf"
proof (induction buf shift x n rule: DecodeVarint_loop.induct)
  case (1 buf shift x n)
  show ?case
  proof (cases "shift < 64 \<and> n < length buf \<and> (ucast (buf ! n) :: uint64) AND 0x80 \<noteq> 0")
    case True
    then have "DecodeVarint_loop buf shift x n =
        DecodeVarint_loop buf (shift + 7)
          (x OR push_bit shift ((ucast (buf ! n) :: uint64) AND 0x7F)) (n + 1)"
      by (subst DecodeVarint_loop.simps) (simp add: Let_def del: DecodeVarint_loop.simps)
    with 1(2) have "DecodeVarint_loop buf (shift + 7)
          (x OR push_bit shift ((ucast (buf ! n) :: uint64) AND 0x7F)) (n + 1) = (v, k)"
      by simp
    moreover from True have "n + 1 \<le> length buf" by simp
    ultimately show ?thesis
      using 1(1) [OF _ _ refl refl refl] True by simp
  next
    case False
    from 1(2) have "(if shift < 64 then
        (if n \<ge> length buf then (0, 0)
         else
           let b = (ucast (buf ! n) :: uint64);
               n = n + 1;
               x = x OR push_bit shift (b AND 0x7F)
           in if b AND 0x80 = 0 then (x, n)
              else DecodeVarint_loop buf (shift + 7) x n)
      else (0, 0)) = (v, k)"
      by (subst (asm) DecodeVarint_loop.simps)
    with False 1(3) show ?thesis
      by (auto simp: Let_def simp del: DecodeVarint_loop.simps split: if_splits)
  qed
qed

lemma DecodeVarint_le: "DecodeVarint buf = (v, k) \<Longrightarrow> k \<le> length buf"
  unfolding DecodeVarint_def by (erule DecodeVarint_loop_le) simp

lemma ParseTag_le: "ParseTag buf = Inr (tag, n) \<Longrightarrow> n \<le> length buf"
  by (cases "DecodeVarint buf")
    (auto simp: ParseTag_def Let_def split: if_splits dest: DecodeVarint_le)

lemma ParseProto_loop_Nil: "ParseProto_loop [] 0 [] = Some (Inr ([], 0))"
  by (subst ParseProto_loop.simps) simp

lemma empty_field_step:
  assumes lt: "pos < length data" and len: "length data < 2 ^ 63"
    and tg: "ParseTag (drop pos data) = Inr (tag, n)" and ld: "typ' tag = LengthDelim"
    and d: "DecodeVarint (drop (pos + n) data) = (0, k)"
  shows "ParseProto_loop data pos msg =
    ParseProto_loop data (pos + n + k)
      (addField msg (fieldID tag) (Field None None (Some []) None))"
proof -
  from ParseTag_le [OF tg] lt have n: "pos + n \<le> length data" by simp
  from DecodeVarint_le [OF d] n have k: "pos + n + k \<le> length data" by simp
  have hi: "int64 (int (pos + n + k)) = int (pos + n + k)"
    using k len by (intro int64_id) simp_all
  show ?thesis
    apply (subst ParseProto_loop.simps)
    using lt tg ld d k
    apply (simp add: wire_defs Let_def hi ParseProto_loop_Nil del: of_nat_add)
    done
qed

section \<open>Further facts about the decoding loop\<close>

text \<open>A run that returns a message has consumed the whole slice.\<close>

lemma ParseProto_loop_consumes_all:
  assumes "ParseProto_loop data pos msg = Some y" "y = Inr (m, cnt)" "pos \<le> length data"
  shows "cnt = length data"
  using assms
proof (induction arbitrary: m cnt rule: ParseProto_loop_induct)
  case (finished data pos msg)
  then show ?case by simp
next
  case (varint data pos msg tag n x k y)
  from ParseTag_le [OF varint.hyps(2)] varint.hyps(1) have "pos + n \<le> length data" by simp
  with DecodeVarint_le [OF varint.hyps(4)] have "pos + n + k \<le> length data" by simp
  from varint.IH [OF varint.prems(1) this] show ?case .
next
  case (fixed32 data pos msg tag n x y)
  from fixed32.hyps(4) have "pos + n + 4 \<le> length data"
    by (simp add: DecodeFixed32_def split: if_splits)
  from fixed32.IH [OF fixed32.prems(1) this] show ?case .
next
  case (fixed64 data pos msg tag n x y)
  from fixed64.hyps(4) have "pos + n + 8 \<le> length data"
    by (simp add: DecodeFixed64_def split: if_splits)
  from fixed64.IH [OF fixed64.prems(1) this] show ?case .
next
  case (sub_message data pos msg tag n x k hi content sub j y)
  from sub_message.hyps(6) have "nat hi \<le> length data" by simp
  from sub_message.IH(2) [OF sub_message.prems(1) this] show ?case .
next
  case (as_text data pos msg tag n x k hi content err y)
  from as_text.hyps(6) have "nat hi \<le> length data" by simp
  from as_text.IH(2) [OF as_text.prems(1) this] show ?case .
next
  case (as_bytes data pos msg tag n x k hi content err y)
  from as_bytes.hyps(6) have "nat hi \<le> length data" by simp
  from as_bytes.IH(2) [OF as_bytes.prems(1) this] show ?case .
next
  case (other data pos msg tag n y)
  from ParseTag_le [OF other.hyps(2)] other.hyps(1) have "pos + n \<le> length data" by simp
  from other.IH [OF other.prems(1) this] show ?case .
qed simp_all

lemma ParseProto_consumes_all: "ParseProto data = Some (Inr (m, n)) \<Longrightarrow> n = length data"
  unfolding ParseProto_def by (erule ParseProto_loop_consumes_all) simp_all

text \<open>
  The truncations the loop does detect: a fixed-width field with too few bytes left and a
  length-delimited field whose end lies beyond the slice return an error.
\<close>

lemma truncated_fixed32:
  assumes "pos < length data" "ParseTag (drop pos data) = Inr (tag, n)" "typ' tag = B32"
    and "length data < pos + n + 4"
  shows "ParseProto_loop data pos msg = Some (Inl (Error ErrUnexpectedEOF))"
proof -
  from assms(4) have "length data - (pos + n) < 4" by simp
  with assms(1-3) show ?thesis
    by (subst ParseProto_loop.simps) (simp add: wire_defs DecodeFixed32_def Let_def)
qed

lemma truncated_fixed64:
  assumes "pos < length data" "ParseTag (drop pos data) = Inr (tag, n)" "typ' tag = B64"
    and "length data < pos + n + 8"
  shows "ParseProto_loop data pos msg = Some (Inl (Error ErrUnexpectedEOF))"
proof -
  from assms(4) have "length data - (pos + n) < 8" by simp
  with assms(1-3) show ?thesis
    by (subst ParseProto_loop.simps) (simp add: wire_defs DecodeFixed64_def Let_def)
qed

lemma truncated_length_delimited:
  assumes "pos < length data" "ParseTag (drop pos data) = Inr (tag, n)"
    and "typ' tag = LengthDelim" "DecodeVarint (drop (pos + n) data) = (x, k)"
    and "int (length data) < int64 (int (pos + n + k) + sint x)"
  shows "ParseProto_loop data pos msg =
    Some (Inl (Error (NotEnoughBytes x (int (length data) - int (pos + n + k)))))"
  using assms
  by (subst ParseProto_loop.simps) (simp add: wire_defs Let_def del: of_nat_add)

text \<open>
  The classification of a payload whose recursive decode returns: a message is stored
  as a nested message, a returned error selects text or bytes by \<^verbatim>\<open>utf8.Valid\<close> and is
  not passed on. A recursive decode that panics or does not return takes the enclosing
  decode with it.
\<close>

lemma classify_payload:
  assumes "pos < length data" "ParseTag (drop pos data) = Inr (tag, n)"
    and "typ' tag = LengthDelim" "DecodeVarint (drop (pos + n) data) = (x, k)"
    and "hi = int64 (int (pos + n + k) + sint x)"
    and "hi \<le> int (length data)" "int (pos + n + k) \<le> hi"
    and "content = take (nat hi - (pos + n + k)) (drop (pos + n + k) data)"
  shows "ParseProto_loop data pos msg =
    (case ParseProto content of
       None \<Rightarrow> None
     | Some (Inl Panic) \<Rightarrow> Some (Inl Panic)
     | Some (Inl (Error e)) \<Rightarrow>
         ParseProto_loop data (nat hi)
           (addField msg (fieldID tag)
              (if utf8_Valid content then Field None (Some content) None None
               else Field None None None (Some content)))
     | Some (Inr (sub, j)) \<Rightarrow>
         ParseProto_loop data (nat hi)
           (addField msg (fieldID tag) (Field None None (Some sub) None)))"
  using assms
  by (subst ParseProto_loop.simps)
    (simp add: wire_defs Let_def ParseProto_def
      split: option.splits sum.splits failure.splits prod.splits del: of_nat_add)

section \<open>One-byte varints\<close>

text \<open>A byte below \<open>0x80\<close> is a complete varint: every value below 128 is the varint of a
  one-byte tag.\<close>

lemma DecodeVarint_single:
  assumes "b < 0x80"
  shows "DecodeVarint (b # rest) = (ucast b, 1)"
proof -
  define w :: uint64 where "w = ucast b"
  from assms have "unat b < 128" by (simp add: word_less_nat_alt)
  then have "unat w < 128" by (simp add: w_def unsigned_ucast_eq take_bit_nat_eq_self)
  then have "w < 2 ^ 7" by (simp add: word_less_nat_alt)
  then have "w AND mask 7 = w" by (rule less_mask_eq)
  then have m: "w AND 0x7F = w" by (simp add: mask_eq_decr_exp)
  have "w AND 0x80 = (w AND 0x7F) AND 0x80" by (simp only: m)
  also have "\<dots> = w AND (0x7F AND 0x80)" by (simp only: and.assoc)
  also have "\<dots> = 0" by simp
  finally have z: "w AND 0x80 = 0" .
  show ?thesis
    unfolding DecodeVarint_def
    by (subst DecodeVarint_loop.simps)
      (simp add: Let_def m z w_def [symmetric] del: DecodeVarint_loop.simps)
qed

lemma ParseTag_single:
  assumes "b < 0x80"
  shows "ParseTag (b # rest) =
    (if ucast b AND (7 :: uint64) \<in> {0, 1, 2, 5}
     then Inr (Tag (drop_bit 3 (ucast b)) (ucast b AND 7), 1)
     else Inl (Error (InvalidFieldType (ucast b AND 7))))"
  by (auto simp: ParseTag_def DecodeVarint_single [OF assms] wire_defs Let_def)

section \<open>The loop as a repetition of turns\<close>

lemma ParseProto_loop_turn:
  "ParseProto_loop data pos msg =
     (if pos < length data then
        ParseProto_turn data pos \<bind> (\<lambda>r.
          case r of
            Inl err \<Rightarrow> Some (Inl err)
          | Inr (added, pos') \<Rightarrow>
              ParseProto_loop data pos'
                (case added of None \<Rightarrow> msg | Some (fid, field) \<Rightarrow> addField msg fid field))
      else Some (Inr (msg, pos)))"
  apply (subst ParseProto_loop.simps [of data pos msg])
  apply (simp add: ParseProto_turn_def ParseProto_def Let_def
      split: sum.split prod.split failure.split option.split bind_split del: of_nat_add)
  done

lemma ParseProto_loop_finished:
  "\<not> pos < length data \<Longrightarrow> ParseProto_loop data pos msg = Some (Inr (msg, pos))"
  by (subst ParseProto_loop_turn) simp

lemma ParseProto_loop_stores:
  "pos < length data \<Longrightarrow> ParseProto_turn data pos = Some (Inr (Some (fid, field), pos')) \<Longrightarrow>
     ParseProto_loop data pos msg = ParseProto_loop data pos' (addField msg fid field)"
  by (subst ParseProto_loop_turn) simp

lemma ParseProto_loop_skips:
  "pos < length data \<Longrightarrow> ParseProto_turn data pos = Some (Inr (None, pos')) \<Longrightarrow>
     ParseProto_loop data pos msg = ParseProto_loop data pos' msg"
  by (subst ParseProto_loop_turn) simp

text \<open>Induction over the turns of a run that returns.\<close>

lemma ParseProto_turn_induct [consumes 1, case_names finished failed stores skips]:
  assumes run: "ParseProto_loop data pos msg = Some y"
    and finished: "\<And>data pos msg. \<not> pos < length data \<Longrightarrow> P data pos msg (Inr (msg, pos))"
    and failed: "\<And>data pos msg err. pos < length data \<Longrightarrow> P data pos msg (Inl err)"
    and stores: "\<And>data pos msg fid field pos' y. pos < length data \<Longrightarrow>
        ParseProto_turn data pos = Some (Inr (Some (fid, field), pos')) \<Longrightarrow>
        ParseProto_loop data pos' (addField msg fid field) = Some y \<Longrightarrow>
        P data pos' (addField msg fid field) y \<Longrightarrow> P data pos msg y"
    and skips: "\<And>data pos msg pos' y. pos < length data \<Longrightarrow>
        ParseProto_turn data pos = Some (Inr (None, pos')) \<Longrightarrow>
        ParseProto_loop data pos' msg = Some y \<Longrightarrow>
        P data pos' msg y \<Longrightarrow> P data pos msg y"
  shows "P data pos msg y"
  using run
proof (induction rule: ParseProto_loop_induct)
  case (finished data pos msg)
  then show ?case by (rule assms(2))
next
  case (varint data pos msg tag n x k y)
  have "ParseProto_turn data pos =
      Some (Inr (Some (fieldID tag, Field (Some x) None None None), pos + n + k))"
    using varint.hyps(2-4) by (simp add: ParseProto_turn_def)
  from stores [OF varint.hyps(1) this varint.hyps(5) varint.IH] show ?case .
next
  case (fixed32 data pos msg tag n x y)
  have "ParseProto_turn data pos =
      Some (Inr (Some (fieldID tag, Field (Some x) None None None), pos + n + 4))"
    using fixed32.hyps(2-4) by (simp add: ParseProto_turn_def wire_defs)
  from stores [OF fixed32.hyps(1) this fixed32.hyps(5) fixed32.IH] show ?case .
next
  case (fixed64 data pos msg tag n x y)
  have "ParseProto_turn data pos =
      Some (Inr (Some (fieldID tag, Field (Some x) None None None), pos + n + 8))"
    using fixed64.hyps(2-4) by (simp add: ParseProto_turn_def wire_defs)
  from stores [OF fixed64.hyps(1) this fixed64.hyps(5) fixed64.IH] show ?case .
next
  case (sub_message data pos msg tag n x k hi content sub j y)
  have "ParseProto_turn data pos =
      Some (Inr (Some (fieldID tag, Field None None (Some sub) None), nat hi))"
    using sub_message.hyps(2-9)
    by (simp add: ParseProto_turn_def wire_defs Let_def ParseProto_def del: of_nat_add)
  from stores [OF sub_message.hyps(1) this sub_message.hyps(10) sub_message.IH(2)]
  show ?case .
next
  case (as_text data pos msg tag n x k hi content err y)
  have "ParseProto_turn data pos =
      Some (Inr (Some (fieldID tag, Field None (Some content) None None), nat hi))"
    using as_text.hyps(2-10)
    by (simp add: ParseProto_turn_def wire_defs Let_def ParseProto_def del: of_nat_add)
  from stores [OF as_text.hyps(1) this as_text.hyps(11) as_text.IH(2)]
  show ?case .
next
  case (as_bytes data pos msg tag n x k hi content err y)
  have "ParseProto_turn data pos =
      Some (Inr (Some (fieldID tag, Field None None None (Some content)), nat hi))"
    using as_bytes.hyps(2-10)
    by (simp add: ParseProto_turn_def wire_defs Let_def ParseProto_def del: of_nat_add)
  from stores [OF as_bytes.hyps(1) this as_bytes.hyps(11) as_bytes.IH(2)]
  show ?case .
next
  case (other data pos msg tag n y)
  have "ParseProto_turn data pos = Some (Inr (None, pos + n))"
    using other.hyps(2-6) by (simp add: ParseProto_turn_def)
  from skips [OF other.hyps(1) this other.hyps(7) other.IH] show ?case .
qed (simp_all add: failed)

text \<open>
  What a run adds does not depend on the message it starts from: it appends, under
  every number, the same fields to whatever is stored already.
\<close>

lemma ParseProto_loop_adds:
  assumes "ParseProto_loop data pos msg = Some y" "y = Inr (m, cnt)"
  shows "\<exists>adds. \<forall>msg2. \<exists>m2. ParseProto_loop data pos msg2 = Some (Inr (m2, cnt)) \<and>
    (\<forall>fid. fields_of m2 fid = fields_of msg2 fid @ adds fid)"
  using assms
proof (induction arbitrary: m cnt rule: ParseProto_turn_induct)
  case (finished data pos msg)
  then show ?case
    by (intro exI [of _ "\<lambda>_. []"]) (simp add: ParseProto_loop_finished)
next
  case (failed data pos msg err)
  then show ?case by simp
next
  case (stores data pos msg fid field pos' y)
  from stores.IH [OF stores.prems] obtain adds where
    a: "\<And>msg2. \<exists>m2. ParseProto_loop data pos' msg2 = Some (Inr (m2, cnt)) \<and>
      (\<forall>k. fields_of m2 k = fields_of msg2 k @ adds k)"
    by blast
  let ?adds = "\<lambda>k. (if k = fid then [field] else []) @ adds k"
  have "\<exists>m2. ParseProto_loop data pos msg2 = Some (Inr (m2, cnt)) \<and>
      (\<forall>k. fields_of m2 k = fields_of msg2 k @ ?adds k)" for msg2
  proof -
    from a [of "addField msg2 fid field"] obtain m2 where
      "ParseProto_loop data pos' (addField msg2 fid field) = Some (Inr (m2, cnt))"
      "\<forall>k. fields_of m2 k = fields_of (addField msg2 fid field) k @ adds k"
      by blast
    then show ?thesis
      using ParseProto_loop_stores [OF stores.hyps(1,2), of msg2]
      by (auto simp: fields_of_addField)
  qed
  then show ?case
    by (intro exI [of _ ?adds]) simp
next
  case (skips data pos msg pos' y)
  from skips.IH [OF skips.prems] obtain adds where
    a: "\<And>msg2. \<exists>m2. ParseProto_loop data pos' msg2 = Some (Inr (m2, cnt)) \<and>
      (\<forall>k. fields_of m2 k = fields_of msg2 k @ adds k)"
    by blast
  then have "\<forall>msg2. \<exists>m2. ParseProto_loop data pos msg2 = Some (Inr (m2, cnt)) \<and>
      (\<forall>k. fields_of m2 k = fields_of msg2 k @ adds k)"
    using ParseProto_loop_skips [OF skips.hyps(1,2)] by simp
  then show ?case
    by (intro exI [of _ adds]) simp
qed

text \<open>
  Encounter order: after a turn that adds a field, the run stores under every number
  what was stored before, then the field of this turn if it has that number, then what
  the rest of the input adds under that number (that is, what decoding the rest from
  the empty message stores there).
\<close>

lemma ParseProto_loop_encounter:
  assumes lt: "pos < length data"
    and turn: "ParseProto_turn data pos = Some (Inr (Some (k, field), pos'))"
    and run: "ParseProto_loop data pos msg = Some (Inr (m, cnt))"
  shows "\<exists>rest. ParseProto_loop data pos' [] = Some (Inr (rest, cnt)) \<and>
    (\<forall>fid. fields_of m fid =
       fields_of msg fid @ (if fid = k then [field] else []) @ fields_of rest fid)"
proof -
  from run ParseProto_loop_stores [OF lt turn, of msg]
  have run': "ParseProto_loop data pos' (addField msg k field) = Some (Inr (m, cnt))"
    by simp
  from ParseProto_loop_adds [OF run' refl] obtain adds where
    a: "\<And>msg2. \<exists>m2. ParseProto_loop data pos' msg2 = Some (Inr (m2, cnt)) \<and>
      (\<forall>fid. fields_of m2 fid = fields_of msg2 fid @ adds fid)"
    by blast
  from a [of "[]"] obtain rest where
    r: "ParseProto_loop data pos' [] = Some (Inr (rest, cnt))"
    and rf: "\<forall>fid. fields_of rest fid = adds fid"
    by (auto simp: fields_of_def)
  from a [of "addField msg k field"] run'
  have "\<forall>fid. fields_of m fid = fields_of (addField msg k field) fid @ adds fid"
    by auto
  with r rf show ?thesis
    by (auto simp: fields_of_addField)
qed

section \<open>Rendering of a message\<close>

lemma Render_single_entry:
  assumes "range_permutes ord"
  shows "Render ord [(fid, fields)] =
    ''{'' @ [CHR 0x22] @ format_d (unat fid) @ [CHR 0x22] @
      (if length fields = 1 then '':'' @ RenderField ord (fields ! 0)
       else '':['' @ Join (map (RenderField ord) fields) '','' @ '']'') @ ''}''"
proof -
  from assms have single: "ord [s] = [s]" for s by (rule range_permutes_single)
  show ?thesis
    by (simp add: Render_range_map single del: format_d.simps)
qed

section \<open>Repeated one-byte varint fields and empty fields\<close>

lemma foldl_addField_same:
  "foldl (\<lambda>m v. addField m k (g v)) [(k, fs)] vs = [(k, fs @ map g vs)]"
  by (induction vs arbitrary: fs) (simp_all add: addField_def)

lemma repeated_varint_run:
  assumes t: "t < 0x80" "(ucast t :: uint64) AND 7 = 0"
    and vs: "\<forall>v\<in>set vs. v < 0x80"
  shows "ParseProto_loop (pre @ concat (map (\<lambda>v. [t, v]) vs)) (length pre) msg =
    Some (Inr (foldl (\<lambda>m v. addField m (drop_bit 3 (ucast t))
                        (Field (Some (ucast v)) None None None)) msg vs,
               length pre + 2 * length vs))"
  using vs
proof (induction vs arbitrary: pre msg)
  case Nil
  show ?case by (simp add: ParseProto_loop_finished)
next
  case (Cons v vs)
  let ?rest = "concat (map (\<lambda>v. [t, v]) vs)"
  let ?data = "pre @ t # v # ?rest"
  from Cons.prems have v: "v < 0x80" and vs: "\<forall>v\<in>set vs. v < 0x80" by simp_all
  have lt: "length pre < length ?data" by simp
  have d1: "drop (length pre) ?data = t # v # ?rest" by simp
  have d2: "drop (length pre + 1) ?data = v # ?rest" by simp
  have turn: "ParseProto_turn ?data (length pre) =
      Some (Inr (Some (drop_bit 3 (ucast t), Field (Some (ucast v)) None None None),
        length pre + 1 + 1))"
    unfolding ParseProto_turn_def d1
    by (simp add: ParseTag_single [OF t(1)] t(2) wire_defs d2 DecodeVarint_single [OF v])
  have "ParseProto_loop ?data (length pre) msg =
      ParseProto_loop ((pre @ [t, v]) @ ?rest) (length (pre @ [t, v]))
        (addField msg (drop_bit 3 (ucast t)) (Field (Some (ucast v)) None None None))"
    using ParseProto_loop_stores [OF lt turn, of msg] by simp
  also have "\<dots> = Some (Inr (foldl (\<lambda>m v. addField m (drop_bit 3 (ucast t))
                        (Field (Some (ucast v)) None None None))
         (addField msg (drop_bit 3 (ucast t)) (Field (Some (ucast v)) None None None)) vs,
       length (pre @ [t, v]) + 2 * length vs))"
    by (rule Cons.IH [OF vs])
  finally show ?case by simp
qed

lemma repeated_varint_decode:
  assumes "t < 0x80" "(ucast t :: uint64) AND 7 = 0" "\<forall>v\<in>set vs. v < 0x80" "vs \<noteq> []"
  shows "ParseProto (concat (map (\<lambda>v. [t, v]) vs)) =
    Some (Inr ([(drop_bit 3 (ucast t), map (\<lambda>v. Field (Some (ucast v)) None None None) vs)],
      2 * length vs))"
proof -
  from assms(4) obtain v vs' where vs: "vs = v # vs'" by (cases vs) auto
  have first: "addField [] k f = [(k, [f])]" for k f
    by (simp add: addField_def)
  from repeated_varint_run [OF assms(1-3), of "[]" "[]"] show ?thesis
    by (simp add: ParseProto_def vs first foldl_addField_same)
qed

lemma empty_field_turn:
  assumes lt: "pos < length data" and len: "length data < 2 ^ 63"
    and tg: "ParseTag (drop pos data) = Inr (tag, n)" and ld: "typ' tag = LengthDelim"
    and d: "DecodeVarint (drop (pos + n) data) = (0, k)"
  shows "ParseProto_turn data pos =
    Some (Inr (Some (fieldID tag, Field None None (Some []) None), pos + n + k))"
proof -
  from ParseTag_le [OF tg] lt have n: "pos + n \<le> length data" by simp
  from DecodeVarint_le [OF d] n have k: "pos + n + k \<le> length data" by simp
  have hi: "int64 (int (pos + n + k)) = int (pos + n + k)"
    using k len by (intro int64_id) simp_all
  show ?thesis
    using tg ld d k
    by (simp add: ParseProto_turn_def wire_defs Let_def hi ParseProto_def ParseProto_loop_Nil
        del: of_nat_add)
qed

lemma empty_field_decode:
  assumes "t < 0x80" "(ucast t :: uint64) AND 7 = 2"
  shows "ParseProto [t, 0] =
    Some (Inr ([(drop_bit 3 (ucast t), [Field None None (Some []) None])], 2))"
proof -
  have tg: "ParseTag (drop 0 [t, 0]) = Inr (Tag (drop_bit 3 (ucast t)) 2, 1)"
    by (simp add: ParseTag_single [OF assms(1)] assms(2))
  have d: "DecodeVarint (drop (0 + 1) [t, 0]) = (0, 1)"
    by (simp add: DecodeVarint_def)
  have "ParseProto_turn [t, 0] 0 =
      Some (Inr (Some (fieldID (Tag (drop_bit 3 (ucast t)) 2), Field None None (Some []) None),
        0 + 1 + 1))"
    by (rule empty_field_turn [OF _ _ tg _ d]) (simp_all add: wire_defs)
  then have "ParseProto_loop [t, 0] 0 [] =
      ParseProto_loop [t, 0] 2 (addField [] (drop_bit 3 (ucast t)) (Field None None (Some []) None))"
    by (subst ParseProto_loop_turn) (simp add: numeral_2_eq_2)
  then show ?thesis
    by (simp add: ParseProto_def ParseProto_loop_finished addField_def)
qed

section \<open>Repeated fields and empty payloads\<close>

text \<open>
  Claim C8. \<^verbatim>\<open>addField\<close> appends the new field after the fields already stored under
  its number and leaves the other numbers alone. The decoding loop returns the message
  it has built when the slice is used up, and a turn that decodes a field continues
  with that field added; so, in every run that returns, what is stored under a number
  is what was stored before, then the field of this turn if it has that number, then
  what the rest of the input stores under that number: the occurrences of a field
  number are kept in encounter order. The renderer puts between braces, joined by
  commas, one entry for every key of the map, in the order of the visit; an entry is
  the quoted number followed by the single rendered field when there is exactly one,
  and by the bracketed comma-joined list of the rendered fields otherwise. Any number
  of one-byte varint occurrences of one field decode to that sequence of values under
  its number; the bytes \<open>38 01 38 02\<close> (field 7 with the varints 1 and 2) decode to the
  fields 1, 2 under number 7 and render as \<^verbatim>\<open>{"7":[1,2]}\<close>.
\<close>

theorem repeated_fields_keep_order:
  \<open>fields_of (addField m fid f) fid = fields_of m fid @ [f] \<and>
   (fid' \<noteq> fid \<longrightarrow> fields_of (addField m fid f) fid' = fields_of m fid') \<and>
   (\<not> pos < length data \<longrightarrow> ParseProto_loop data pos msg = Some (Inr (msg, pos))) \<and>
   (pos < length data \<and> ParseProto_turn data pos = Some (Inr (Some (k, field), pos')) \<longrightarrow>
      ParseProto_loop data pos msg = ParseProto_loop data pos' (addField msg k field) \<and>
      (ParseProto_loop data pos msg = Some (Inr (m', cnt)) \<longrightarrow>
         (\<exists>rest. ParseProto_loop data pos' [] = Some (Inr (rest, cnt)) \<and>
            (\<forall>j. fields_of m' j =
               fields_of msg j @ (if j = k then [field] else []) @ fields_of rest j)))) \<and>
   (ParseProto_loop data pos msg = Some (Inr (m', cnt)) \<longrightarrow>
      (\<exists>fs. fields_of m' fid = fields_of msg fid @ fs)) \<and>
   Render_range ord m =
     map (\<lambda>(fid, fields).
            [CHR 0x22] @ format_d (unat fid) @ [CHR 0x22] @
            (if length fields = 1 then '':'' @ RenderField ord (fields ! 0)
             else '':['' @ Join (map (RenderField ord) fields) '','' @ '']'')) m \<and>
   Render ord m = ''{'' @ Join (ord (Render_range ord m)) '','' @ ''}'' \<and>
   (range_permutes ord \<longrightarrow>
      mset (ord (Render_range ord m)) = mset (Render_range ord m) \<and>
      Render ord [(fid, fields)] =
        ''{'' @ [CHR 0x22] @ format_d (unat fid) @ [CHR 0x22] @
          (if length fields = 1 then '':'' @ RenderField ord (fields ! 0)
           else '':['' @ Join (map (RenderField ord) fields) '','' @ '']'') @ ''}'') \<and>
   (t < 0x80 \<and> (ucast t :: uint64) AND 7 = 0 \<and> (\<forall>v\<in>set vs. v < 0x80) \<and> vs \<noteq> [] \<longrightarrow>
      ParseProto (concat (map (\<lambda>v. [t, v]) vs)) =
        Some (Inr ([(drop_bit 3 (ucast t),
                     map (\<lambda>v. Field (Some (ucast v)) None None None) vs)],
                   2 * length vs))) \<and>
   ParseProto [0x38, 0x01, 0x38, 0x02] =
     Some (Inr ([(7, [Field (Some 1) None None None, Field (Some 2) None None None])], 4)) \<and>
   (range_permutes ord \<longrightarrow>
      Render ord [(7, [Field (Some 1) None None None, Field (Some 2) None None None])]
        = ''{"7":[1,2]}'')\<close>
proof -
  have c1: "fields_of (addField m fid f) fid = fields_of m fid @ [f]"
    by (simp add: fields_of_addField)
  have c2: "fid' \<noteq> fid \<longrightarrow> fields_of (addField m fid f) fid' = fields_of m fid'"
    by (simp add: fields_of_addField)
  have c3: "\<not> pos < length data \<longrightarrow> ParseProto_loop data pos msg = Some (Inr (msg, pos))"
    by (simp add: ParseProto_loop_finished)
  have c4: "pos < length data \<and>
      ParseProto_turn data pos = Some (Inr (Some (k, field), pos')) \<longrightarrow>
      ParseProto_loop data pos msg = ParseProto_loop data pos' (addField msg k field) \<and>
      (ParseProto_loop data pos msg = Some (Inr (m', cnt)) \<longrightarrow>
         (\<exists>rest. ParseProto_loop data pos' [] = Some (Inr (rest, cnt)) \<and>
            (\<forall>j. fields_of m' j =
               fields_of msg j @ (if j = k then [field] else []) @ fields_of rest j)))"
    using ParseProto_loop_stores [of pos data k field pos' msg]
      ParseProto_loop_encounter [of pos data k field pos' msg m' cnt]
    by blast
  have c5: "ParseProto_loop data pos msg = Some (Inr (m', cnt)) \<longrightarrow>
      (\<exists>fs. fields_of m' fid = fields_of msg fid @ fs)"
    using ParseProto_loop_keeps_order [of data pos msg "Inr (m', cnt)" m' cnt fid] by simp
  note c6 = Render_range_map [of ord m]
  have c7: "Render ord m = ''{'' @ Join (ord (Render_range ord m)) '','' @ ''}''"
    by simp
  have c8: "range_permutes ord \<longrightarrow>
      mset (ord (Render_range ord m)) = mset (Render_range ord m) \<and>
      Render ord [(fid, fields)] =
        ''{'' @ [CHR 0x22] @ format_d (unat fid) @ [CHR 0x22] @
          (if length fields = 1 then '':'' @ RenderField ord (fields ! 0)
           else '':['' @ Join (map (RenderField ord) fields) '','' @ '']'') @ ''}''"
    using Render_single_entry [of ord fid fields] by (simp add: range_permutes_def)
  have c9: "t < 0x80 \<and> (ucast t :: uint64) AND 7 = 0 \<and> (\<forall>v\<in>set vs. v < 0x80) \<and> vs \<noteq> [] \<longrightarrow>
      ParseProto (concat (map (\<lambda>v. [t, v]) vs)) =
        Some (Inr ([(drop_bit 3 (ucast t),
                     map (\<lambda>v. Field (Some (ucast v)) None None None) vs)],
                   2 * length vs))"
    using repeated_varint_decode [of t vs] by blast
  have c10: "ParseProto [0x38, 0x01, 0x38, 0x02] =
     Some (Inr ([(7, [Field (Some 1) None None None, Field (Some 2) None None None])], 4))"
    by (simp add: run_defs)
  have c11: \<open>range_permutes ord \<longrightarrow>
      Render ord [(7, [Field (Some 1) None None None, Field (Some 2) None None None])]
        = ''{"7":[1,2]}''\<close>
  proof
    assume "range_permutes ord"
    then have single: "ord [s] = [s]" for s by (rule range_permutes_single)
    show \<open>Render ord [(7, [Field (Some 1) None None None, Field (Some 2) None None None])]
        = ''{"7":[1,2]}''\<close>
      by (simp add: single fmt_defs)
  qed
  show ?thesis
    by (intro conjI) (fact c1 c2 c3 c4 c5 c6 c7 c8 c9 c10 c11)+
qed

theorem repeated_fields_keep_order_witness:
  \<open>fields_of (addField [(7, [Field (Some 1) None None None])] 7 (Field (Some 2) None None None)) 7
     = [Field (Some 1) None None None, Field (Some 2) None None None] \<and>
   fields_of (addField [(7, [Field (Some 1) None None None])] 7 (Field (Some 2) None None None)) 3
     = [] \<and>
   ParseProto_turn [0x38, 0x01, 0x38, 0x02] 0 =
     Some (Inr (Some (7, Field (Some 1) None None None), 2)) \<and>
   ParseProto_loop [0x38, 0x01, 0x38, 0x02] 0 [] =
     Some (Inr ([(7, [Field (Some 1) None None None, Field (Some 2) None None None])], 4)) \<and>
   ParseProto_loop [0x38, 0x01, 0x38, 0x02] 0 [] =
     ParseProto_loop [0x38, 0x01, 0x38, 0x02] 2 (addField [] 7 (Field (Some 1) None None None)) \<and>
   ParseProto_loop [0x38, 0x01, 0x38, 0x02] 4
       [(7, [Field (Some 1) None None None, Field (Some 2) None None None])] =
     Some (Inr ([(7, [Field (Some 1) None None None, Field (Some 2) None None None])], 4)) \<and>
   ParseProto (concat (map (\<lambda>v. [0x38, v]) [0x01, 0x02])) =
     Some (Inr ([(7, [Field (Some 1) None None None, Field (Some 2) None None None])], 4)) \<and>
   Render id [(7, [Field (Some 1) None None None, Field (Some 2) None None None])]
     = ''{"7":[1,2]}''\<close>
proof -
  let ?f1 = "Field (Some 1) None None None" and ?f2 = "Field (Some 2) None None None"
  let ?data = "[0x38, 0x01, 0x38, 0x02] :: byte list"
  note inst = repeated_fields_keep_order [where m = "[(7, [?f1])]" and fid = 7 and f = ?f2
      and fid' = 3 and pos = 0 and data = ?data and msg = "[]" and k = 7 and field = ?f1
      and pos' = 2 and m' = "[(7, [?f1, ?f2])]" and cnt = 4 and ord = id
      and fields = "[?f1, ?f2]" and t = "0x38" and vs = "[0x01, 0x02]"]
  note last = repeated_fields_keep_order [where m = "[]" and fid = 7 and f = ?f2
      and fid' = 3 and pos = 4 and data = ?data and msg = "[(7, [?f1, ?f2])]" and k = 7
      and field = ?f1 and pos' = 2 and m' = "[]" and cnt = 4 and ord = id
      and fields = "[]" and t = "0x38" and vs = "[]"]
  have turn: "ParseProto_turn ?data 0 = Some (Inr (Some (7, ?f1), 2))"
    by (simp add: ParseProto_turn_def ParseTag_def DecodeVarint_def wire_defs)
  have run: "ParseProto_loop ?data 0 [] = Some (Inr ([(7, [?f1, ?f2])], 4))"
    by (simp add: run_defs)
  have stored: "fields_of [(7, [?f1])] 7 = [?f1]" "fields_of [(7, [?f1])] 3 = []"
    by (simp_all add: fields_of_def)
  have w1: "fields_of (addField [(7, [?f1])] 7 ?f2) 7 = [?f1, ?f2]"
    using inst [THEN conjunct1] stored by simp
  have w2: "fields_of (addField [(7, [?f1])] 7 ?f2) 3 = []"
    using inst [THEN conjunct2, THEN conjunct1] stored by simp
  have w3: "ParseProto_loop ?data 4 [(7, [?f1, ?f2])] = Some (Inr ([(7, [?f1, ?f2])], 4))"
    using last [THEN conjunct2, THEN conjunct2, THEN conjunct1] by simp
  have lt: "(0::nat) < length ?data" by simp
  have w4: "ParseProto_loop ?data 0 [] = ParseProto_loop ?data 2 (addField [] 7 ?f1)"
    using inst [THEN conjunct2, THEN conjunct2, THEN conjunct2, THEN conjunct1, THEN mp,
        OF conjI [OF lt turn], THEN conjunct1] .
  have small: "(0x38 :: byte) < 0x80 \<and> (ucast (0x38 :: byte) :: uint64) AND 7 = 0 \<and>
      (\<forall>v\<in>set [0x01, 0x02 :: byte]. v < 0x80) \<and> [0x01, 0x02 :: byte] \<noteq> []"
    by simp
  have w5: "ParseProto (concat (map (\<lambda>v. [0x38, v]) [0x01, 0x02])) =
      Some (Inr ([(7, [?f1, ?f2])], 4))"
    using inst [THEN conjunct2, THEN conjunct2, THEN conjunct2, THEN conjunct2,
        THEN conjunct2, THEN conjunct2, THEN conjunct2, THEN conjunct2, THEN conjunct1,
        THEN mp, OF small]
    by simp
  have w6: \<open>Render id [(7, [?f1, ?f2])] = ''{"7":[1,2]}''\<close>
    using inst [THEN conjunct2, THEN conjunct2, THEN conjunct2, THEN conjunct2,
        THEN conjunct2, THEN conjunct2, THEN conjunct2, THEN conjunct2, THEN conjunct2,
        THEN conjunct2, THEN mp, OF range_permutes_id] .
  from w1 w2 turn run w4 w3 w5 w6 show ?thesis by (intro conjI)
qed

text \<open>
  Claim C10. Decoding the empty slice returns the empty message, zero bytes consumed
  and no error. Hence a turn of the loop at a length-delimited tag whose length varint
  decodes to 0 yields a nested empty message for the field (never text or bytes): the
  loop goes on with that field added, and returns the message with it when the field
  ends the slice; in every run that returns, the nested empty message is stored under
  the field's number, after what was stored there and before what the rest of the
  input stores there. (Inputs are shorter than \<open>2^63\<close> bytes, as every Go slice is.)
  A nested empty message renders as \<^verbatim>\<open>{}\<close>: for every one-byte length-delimited tag
  followed by the length 0 the decode gives that single field, and the bytes \<open>0a 00\<close>
  render as \<^verbatim>\<open>{"1":{}}\<close>.
\<close>

theorem empty_payload_is_nested_message:
  \<open>ParseProto [] = Some (Inr ([], 0)) \<and>
   (pos < length data \<and> length data < 2 ^ 63 \<and> ParseTag (drop pos data) = Inr (tag, n) \<and>
    typ' tag = LengthDelim \<and> DecodeVarint (drop (pos + n) data) = (0, k) \<longrightarrow>
      ParseProto_turn data pos =
        Some (Inr (Some (fieldID tag, Field None None (Some []) None), pos + n + k)) \<and>
      ParseProto_loop data pos msg =
        ParseProto_loop data (pos + n + k)
          (addField msg (fieldID tag) (Field None None (Some []) None)) \<and>
      (pos + n + k = length data \<longrightarrow>
         ParseProto_loop data pos msg =
           Some (Inr (addField msg (fieldID tag) (Field None None (Some []) None),
                      length data))) \<and>
      (ParseProto_loop data pos msg = Some (Inr (m, cnt)) \<longrightarrow>
         (\<exists>rest. ParseProto_loop data (pos + n + k) [] = Some (Inr (rest, cnt)) \<and>
            fields_of m (fieldID tag) =
              fields_of msg (fieldID tag) @ [Field None None (Some []) None]
                @ fields_of rest (fieldID tag)))) \<and>
   (t < 0x80 \<and> (ucast t :: uint64) AND 7 = 2 \<longrightarrow>
      ParseProto [t, 0] =
        Some (Inr ([(drop_bit 3 (ucast t), [Field None None (Some []) None])], 2))) \<and>
   (range_permutes ord \<longrightarrow>
      RenderField ord (Field None None (Some []) None) = ''{}'' \<and>
      Render ord [] = ''{}'' \<and>
      Render ord [(fid, [Field None None (Some []) None])] =
        ''{'' @ [CHR 0x22] @ format_d (unat fid) @ [CHR 0x22] @ '':{}}'') \<and>
   ParseProto [0x0a, 0x00] = Some (Inr ([(1, [Field None None (Some []) None])], 2)) \<and>
   (range_permutes ord \<longrightarrow>
      Render ord [(1, [Field None None (Some []) None])] = ''{"1":{}}'')\<close>
proof -
  let ?empty = "Field None None (Some []) None"
  have c1: "ParseProto [] = Some (Inr ([], 0))"
    by (simp add: ParseProto_def ParseProto_loop_Nil)
  have c2: "pos < length data \<and> length data < 2 ^ 63 \<and>
      ParseTag (drop pos data) = Inr (tag, n) \<and>
      typ' tag = LengthDelim \<and> DecodeVarint (drop (pos + n) data) = (0, k) \<longrightarrow>
      ParseProto_turn data pos = Some (Inr (Some (fieldID tag, ?empty), pos + n + k)) \<and>
      ParseProto_loop data pos msg =
        ParseProto_loop data (pos + n + k) (addField msg (fieldID tag) ?empty) \<and>
      (pos + n + k = length data \<longrightarrow>
         ParseProto_loop data pos msg =
           Some (Inr (addField msg (fieldID tag) ?empty, length data))) \<and>
      (ParseProto_loop data pos msg = Some (Inr (m, cnt)) \<longrightarrow>
         (\<exists>rest. ParseProto_loop data (pos + n + k) [] = Some (Inr (rest, cnt)) \<and>
            fields_of m (fieldID tag) =
              fields_of msg (fieldID tag) @ [?empty] @ fields_of rest (fieldID tag)))"
  proof (intro impI)
    assume h: "pos < length data \<and> length data < 2 ^ 63 \<and>
      ParseTag (drop pos data) = Inr (tag, n) \<and>
      typ' tag = LengthDelim \<and> DecodeVarint (drop (pos + n) data) = (0, k)"
    then have lt: "pos < length data" and len: "length data < 2 ^ 63"
      and tg: "ParseTag (drop pos data) = Inr (tag, n)" and ld: "typ' tag = LengthDelim"
      and d: "DecodeVarint (drop (pos + n) data) = (0, k)"
      by simp_all
    note turn = empty_field_turn [OF lt len tg ld d]
    note step = ParseProto_loop_stores [OF lt turn, of msg]
    have fin: "pos + n + k = length data \<longrightarrow>
         ParseProto_loop data pos msg =
           Some (Inr (addField msg (fieldID tag) ?empty, length data))"
      using step by (simp add: ParseProto_loop_finished)
    have enc: "ParseProto_loop data pos msg = Some (Inr (m, cnt)) \<longrightarrow>
         (\<exists>rest. ParseProto_loop data (pos + n + k) [] = Some (Inr (rest, cnt)) \<and>
            fields_of m (fieldID tag) =
              fields_of msg (fieldID tag) @ [?empty] @ fields_of rest (fieldID tag))"
    proof
      assume "ParseProto_loop data pos msg = Some (Inr (m, cnt))"
      from ParseProto_loop_encounter [OF lt turn this] obtain rest where
        "ParseProto_loop data (pos + n + k) [] = Some (Inr (rest, cnt))"
        "\<forall>j. fields_of m j =
           fields_of msg j @ (if j = fieldID tag then [?empty] else []) @ fields_of rest j"
        by blast
      then show "\<exists>rest. ParseProto_loop data (pos + n + k) [] = Some (Inr (rest, cnt)) \<and>
            fields_of m (fieldID tag) =
              fields_of msg (fieldID tag) @ [?empty] @ fields_of rest (fieldID tag)"
        by (intro exI [of _ rest]) simp
    qed
    from turn step fin enc
    show "ParseProto_turn data pos = Some (Inr (Some (fieldID tag, ?empty), pos + n + k)) \<and>
      ParseProto_loop data pos msg =
        ParseProto_loop data (pos + n + k) (addField msg (fieldID tag) ?empty) \<and>
      (pos + n + k = length data \<longrightarrow>
         ParseProto_loop data pos msg =
           Some (Inr (addField msg (fieldID tag) ?empty, length data))) \<and>
      (ParseProto_loop data pos msg = Some (Inr (m, cnt)) \<longrightarrow>
         (\<exists>rest. ParseProto_loop data (pos + n + k) [] = Some (Inr (rest, cnt)) \<and>
            fields_of m (fieldID tag) =
              fields_of msg (fieldID tag) @ [?empty] @ fields_of rest (fieldID tag)))"
      by (intro conjI)
  qed
  have c3: "t < 0x80 \<and> (ucast t :: uint64) AND 7 = 2 \<longrightarrow>
      ParseProto [t, 0] = Some (Inr ([(drop_bit 3 (ucast t), [?empty])], 2))"
    using empty_field_decode [of t] by blast
  have c4: \<open>range_permutes ord \<longrightarrow>
      RenderField ord ?empty = ''{}'' \<and>
      Render ord [] = ''{}'' \<and>
      Render ord [(fid, [?empty])] =
        ''{'' @ [CHR 0x22] @ format_d (unat fid) @ [CHR 0x22] @ '':{}}''\<close>
  proof
    assume r: "range_permutes ord"
    then have single: "ord [s] = [s]" for s by (rule range_permutes_single)
    from r have nil: "ord [] = []" by (rule range_permutes_nil)
    show \<open>RenderField ord ?empty = ''{}'' \<and>
      Render ord [] = ''{}'' \<and>
      Render ord [(fid, [?empty])] =
        ''{'' @ [CHR 0x22] @ format_d (unat fid) @ [CHR 0x22] @ '':{}}''\<close>
      by (simp add: single nil del: format_d.simps)
  qed
  have c5: "ParseProto [0x0a, 0x00] = Some (Inr ([(1, [?empty])], 2))"
    by (simp add: run_defs)
  have c6: \<open>range_permutes ord \<longrightarrow> Render ord [(1, [?empty])] = ''{"1":{}}''\<close>
  proof
    assume r: "range_permutes ord"
    then have single: "ord [s] = [s]" for s by (rule range_permutes_single)
    from r have nil: "ord [] = []" by (rule range_permutes_nil)
    show \<open>Render ord [(1, [?empty])] = ''{"1":{}}''\<close>
      by (simp add: single nil fmt_defs)
  qed
  show ?thesis
    by (intro conjI) (fact c1 c2 c3 c4 c5 c6)+
qed

theorem empty_payload_is_nested_message_witness:
  \<open>ParseTag (drop 0 [0x0a, 0x00, 0x08, 0x01]) = Inr (Tag 1 2, 1) \<and>
   DecodeVarint (drop (0 + 1) [0x0a, 0x00, 0x08, 0x01]) = (0, 1) \<and>
   ParseProto_turn [0x0a, 0x00, 0x08, 0x01] 0 =
     Some (Inr (Some (1, Field None None (Some []) None), 2)) \<and>
   ParseProto_loop [0x0a, 0x00, 0x08, 0x01] 0 [] =
     ParseProto_loop [0x0a, 0x00, 0x08, 0x01] 2 [(1, [Field None None (Some []) None])] \<and>
   ParseProto_loop [0x0a, 0x00, 0x08, 0x01] 0 [] =
     Some (Inr ([(1, [Field None None (Some []) None, Field (Some 1) None None None])], 4)) \<and>
   ParseProto_loop [0x0a, 0x00] 0 [] =
     Some (Inr ([(1, [Field None None (Some []) None])], 2)) \<and>
   ParseProto [0x0a, 0x00] = Some (Inr ([(1, [Field None None (Some []) None])], 2)) \<and>
   RenderField id (Field None None (Some []) None) = ''{}'' \<and>
   Render id [(1, [Field None None (Some []) None])] = ''{"1":{}}''\<close>
proof -
  let ?empty = "Field None None (Some []) None"
  let ?data = "[0x0a, 0x00, 0x08, 0x01] :: byte list"
  note inst = empty_payload_is_nested_message [where pos = 0 and data = ?data
      and tag = "Tag 1 2" and n = 1 and k = 1 and msg = "[]"
      and m = "[(1, [?empty, Field (Some 1) None None None])]" and cnt = 4
      and t = "0x0a" and ord = id and fid = 1]
  note last = empty_payload_is_nested_message [where pos = 0 and data = "[0x0a, 0x00]"
      and tag = "Tag 1 2" and n = 1 and k = 1 and msg = "[]"
      and m = "[(1, [?empty])]" and cnt = 2 and t = "0x0a" and ord = id and fid = 1]
  have t: "ParseTag (drop 0 ?data) = Inr (Tag 1 2, 1)"
    by (simp add: ParseTag_def DecodeVarint_def wire_defs)
  have t2: "ParseTag (drop 0 [0x0a, 0x00]) = Inr (Tag 1 2, 1)"
    by (simp add: ParseTag_def DecodeVarint_def wire_defs)
  have v: "DecodeVarint (drop (0 + 1) ?data) = (0, 1)"
    by (simp add: DecodeVarint_def)
  have v2: "DecodeVarint (drop (0 + 1) [0x0a, 0x00 :: byte]) = (0, 1)"
    by (simp add: DecodeVarint_def)
  have run: "ParseProto_loop ?data 0 [] =
      Some (Inr ([(1, [?empty, Field (Some 1) None None None])], 4))"
    by (simp add: run_defs)
  have h: "(0::nat) < length ?data \<and> length ?data < 2 ^ 63 \<and>
      ParseTag (drop 0 ?data) = Inr (Tag 1 2, 1) \<and> typ' (Tag 1 2) = LengthDelim \<and>
      DecodeVarint (drop (0 + 1) ?data) = (0, 1)"
    using t v by (simp add: wire_defs)
  have h2: "(0::nat) < length [0x0a, 0x00 :: byte] \<and> length [0x0a, 0x00 :: byte] < 2 ^ 63 \<and>
      ParseTag (drop 0 [0x0a, 0x00]) = Inr (Tag 1 2, 1) \<and> typ' (Tag 1 2) = LengthDelim \<and>
      DecodeVarint (drop (0 + 1) [0x0a, 0x00 :: byte]) = (0, 1)"
    using t2 v2 by (simp add: wire_defs)
  note general = inst [THEN conjunct2, THEN conjunct1, THEN mp, OF h]
  note general2 = last [THEN conjunct2, THEN conjunct1, THEN mp, OF h2]
  have added: "addField [] (fieldID (Tag 1 2)) ?empty = [(1, [?empty])]"
    by (simp add: addField_def)
  have w1: "ParseProto_turn ?data 0 = Some (Inr (Some (1, ?empty), 2))"
    using general [THEN conjunct1] by simp
  have w2: "ParseProto_loop ?data 0 [] = ParseProto_loop ?data 2 [(1, [?empty])]"
    using general [THEN conjunct2, THEN conjunct1] added by (simp add: numeral_2_eq_2)
  have w3: "ParseProto_loop [0x0a, 0x00] 0 [] = Some (Inr ([(1, [?empty])], 2))"
    using general2 [THEN conjunct2, THEN conjunct2, THEN conjunct1] added by simp
  note w4 = inst [THEN conjunct2, THEN conjunct2, THEN conjunct2, THEN conjunct2,
      THEN conjunct1]
  note renders = inst [THEN conjunct2, THEN conjunct2, THEN conjunct2, THEN conjunct1,
      THEN mp, OF range_permutes_id]
  note w5 = renders [THEN conjunct1]
  note w6 = inst [THEN conjunct2, THEN conjunct2, THEN conjunct2, THEN conjunct2,
      THEN conjunct2, THEN mp, OF range_permutes_id]
  from t v w1 w2 run w3 w4 w5 w6 show ?thesis by (intro conjI)
qed

end
